theory Spec2Isabelle
  imports Complex_Main "HOL-Library.Multiset"
begin

section \<open>JavaScript values used by the lyrics viewer\<close>

text \<open>
  A JavaScript string is a sequence of UTF-16 code units. A code unit is modelled by its
  number, so every string the program can receive is a list of naturals below 65536, and
  a statement about all lists covers them all.
\<close>

type_synonym jschar = nat
type_synonym jsstring = "jschar list"

text \<open>String literals of the verified program, written as Isabelle strings.\<close>

definition js :: "string \<Rightarrow> jsstring" where
  "js s = map of_char s"

text \<open>
  A JavaScript \<open>number\<close>. The finite values are modelled by exact rationals: every finite
  double is a rational, and the rounding and the overflow of IEEE-754 arithmetic are not
  modelled (an arithmetic result is the exact one). The two zeros are one value. The three
  special values are kept, since the parsers of this program produce them.
\<close>

datatype number = Fin rat | PosInf | NegInf | NaN

text \<open>The relational operators \<open><\<close>, \<open><=\<close> and \<open>>=\<close>: every comparison with \<open>NaN\<close> is false.\<close>

fun num_lt :: "number \<Rightarrow> number \<Rightarrow> bool" where
  "num_lt NaN _ = False"
| "num_lt _ NaN = False"
| "num_lt (Fin a) (Fin b) = (a < b)"
| "num_lt (Fin a) PosInf = True"
| "num_lt (Fin a) NegInf = False"
| "num_lt PosInf _ = False"
| "num_lt NegInf NegInf = False"
| "num_lt NegInf _ = True"

fun num_le :: "number \<Rightarrow> number \<Rightarrow> bool" where
  "num_le NaN _ = False"
| "num_le _ NaN = False"
| "num_le a b = (\<not> num_lt b a)"

definition num_ge :: "number \<Rightarrow> number \<Rightarrow> bool" where
  "num_ge a b = num_le b a"

text \<open>The arithmetic operators \<open>+\<close>, \<open>-\<close>, \<open>*\<close>, \<open>/\<close>, \<open>%\<close> and \<open>Math.floor\<close>.\<close>

fun num_add :: "number \<Rightarrow> number \<Rightarrow> number" where
  "num_add NaN _ = NaN"
| "num_add _ NaN = NaN"
| "num_add (Fin a) (Fin b) = Fin (a + b)"
| "num_add PosInf NegInf = NaN"
| "num_add NegInf PosInf = NaN"
| "num_add PosInf _ = PosInf"
| "num_add NegInf _ = NegInf"
| "num_add (Fin a) b = b"

fun num_neg :: "number \<Rightarrow> number" where
  "num_neg (Fin a) = Fin (- a)"
| "num_neg PosInf = NegInf"
| "num_neg NegInf = PosInf"
| "num_neg NaN = NaN"

definition num_sub :: "number \<Rightarrow> number \<Rightarrow> number" where
  "num_sub a b = num_add a (num_neg b)"

text \<open>The sign of a number that is not \<open>NaN\<close>, zero counting as positive (one zero only).\<close>

fun negative :: "number \<Rightarrow> bool" where
  "negative (Fin a) = (a < 0)"
| "negative NegInf = True"
| "negative _ = False"

fun num_mul :: "number \<Rightarrow> number \<Rightarrow> number" where
  "num_mul NaN _ = NaN"
| "num_mul _ NaN = NaN"
| "num_mul (Fin a) (Fin b) = Fin (a * b)"
| "num_mul a b =
     (if a = Fin 0 \<or> b = Fin 0 then NaN
      else if negative a = negative b then PosInf else NegInf)"

fun num_div :: "number \<Rightarrow> number \<Rightarrow> number" where
  "num_div NaN _ = NaN"
| "num_div _ NaN = NaN"
| "num_div (Fin a) (Fin b) =
     (if b \<noteq> 0 then Fin (a / b)
      else if a = 0 then NaN else if a < 0 then NegInf else PosInf)"
| "num_div (Fin a) _ = Fin 0"
| "num_div a (Fin b) = (if negative a = (b < 0) then PosInf else NegInf)"
| "num_div _ _ = NaN"

text \<open>\<open>a % b\<close> has the sign of the dividend: it is \<open>a - b * trunc (a / b)\<close>.\<close>

definition trunc :: "rat \<Rightarrow> int" where
  "trunc q = (if 0 \<le> q then \<lfloor>q\<rfloor> else \<lceil>q\<rceil>)"

fun num_rem :: "number \<Rightarrow> number \<Rightarrow> number" where
  "num_rem NaN _ = NaN"
| "num_rem _ NaN = NaN"
| "num_rem (Fin a) (Fin b) = (if b = 0 then NaN else Fin (a - b * of_int (trunc (a / b))))"
| "num_rem (Fin a) _ = Fin a"
| "num_rem _ _ = NaN"

fun math_floor :: "number \<Rightarrow> number" where
  "math_floor (Fin a) = Fin (of_int \<lfloor>a\<rfloor>)"
| "math_floor x = x"

subsection \<open>Strings\<close>

abbreviation NL :: jschar where "NL \<equiv> 0x0A"
abbreviation PLUS :: jschar where "PLUS \<equiv> 0x2B"
abbreviation MINUS :: jschar where "MINUS \<equiv> 0x2D"
abbreviation DOT :: jschar where "DOT \<equiv> 0x2E"
abbreviation ZERO :: jschar where "ZERO \<equiv> 0x30"
abbreviation COLON :: jschar where "COLON \<equiv> 0x3A"
abbreviation LBRACKET :: jschar where "LBRACKET \<equiv> 0x5B"
abbreviation RBRACKET :: jschar where "RBRACKET \<equiv> 0x5D"
abbreviation PIPE :: jschar where "PIPE \<equiv> 0x7C"

text \<open>
  \<open>String.prototype.split\<close> with a separator of one code unit: the pieces between the
  separators, in order; a string without the separator is the only piece. (The result of
  the recursive call is never empty; its \<open>[]\<close> case only makes the \<open>case\<close> complete.)
\<close>

fun split_on :: "jschar \<Rightarrow> jsstring \<Rightarrow> jsstring list" where
  "split_on sep [] = [[]]"
| "split_on sep (c # cs) =
     (if c = sep then [] # split_on sep cs
      else (case split_on sep cs of [] \<Rightarrow> [[c]] | p # ps \<Rightarrow> (c # p) # ps))"

text \<open>\<open>Array.prototype.join\<close>.\<close>

fun join :: "jsstring \<Rightarrow> jsstring list \<Rightarrow> jsstring" where
  "join sep [] = []"
| "join sep [x] = x"
| "join sep (x # y # ys) = x @ sep @ join sep (y # ys)"

text \<open>
  The code units that \<open>String.prototype.trim\<close>, \<open>parseInt\<close> and \<open>parseFloat\<close> strip:
  the WhiteSpace and LineTerminator productions of ECMAScript.
\<close>

definition is_white_space :: "jschar \<Rightarrow> bool" where
  "is_white_space c \<longleftrightarrow>
     c \<in> {0x09, 0x0A, 0x0B, 0x0C, 0x0D, 0x20, 0xA0, 0x1680, 0x2028, 0x2029, 0x202F,
          0x205F, 0x3000, 0xFEFF} \<or> (0x2000 \<le> c \<and> c \<le> 0x200A)"

text \<open>The code units that \<open>.\<close> of a regular expression (without the \<open>s\<close> flag) does not match.\<close>

definition is_line_terminator :: "jschar \<Rightarrow> bool" where
  "is_line_terminator c \<longleftrightarrow> c \<in> {0x0A, 0x0D, 0x2028, 0x2029}"

definition trim_start :: "jsstring \<Rightarrow> jsstring" where
  "trim_start s = dropWhile is_white_space s"

definition trim :: "jsstring \<Rightarrow> jsstring" where
  "trim s = rev (dropWhile is_white_space (rev (dropWhile is_white_space s)))"

text \<open>\<open>\d\<close> of a regular expression, and a DecimalDigit of the numeric grammar.\<close>

definition is_digit :: "jschar \<Rightarrow> bool" where
  "is_digit c \<longleftrightarrow> 0x30 \<le> c \<and> c \<le> 0x39"

subsection \<open>\<open>parseInt\<close> (no radix argument) and \<open>parseFloat\<close>\<close>

text \<open>The value of a code unit as a digit of radix \<open>R\<close>, if it is one.\<close>

definition radix_digit :: "nat \<Rightarrow> jschar \<Rightarrow> nat option" where
  "radix_digit R c =
     (let v = (if 0x30 \<le> c \<and> c \<le> 0x39 then Some (c - 0x30)
               else if 0x61 \<le> c \<and> c \<le> 0x7A then Some (c - 0x61 + 10)
               else if 0x41 \<le> c \<and> c \<le> 0x5A then Some (c - 0x41 + 10)
               else None)
      in case v of None \<Rightarrow> None | Some d \<Rightarrow> if d < R then Some d else None)"

fun radix_value :: "nat \<Rightarrow> nat \<Rightarrow> jsstring \<Rightarrow> nat" where
  "radix_value R acc [] = acc"
| "radix_value R acc (c # cs) = radix_value R (acc * R + the (radix_digit R c)) cs"

text \<open>
  \<open>parseInt(string)\<close>: leading white space is skipped, then a sign, then \<open>0x\<close> or \<open>0X\<close>
  selects radix 16; the longest run of digits is the value, and \<open>NaN\<close> when it is empty.
\<close>

definition parseInt :: "jsstring \<Rightarrow> number" where
  "parseInt inputString =
     (let S = trim_start inputString;
          sign = (if S \<noteq> [] \<and> hd S = MINUS then - 1 else 1 :: int);
          S1 = (if S \<noteq> [] \<and> (hd S = PLUS \<or> hd S = MINUS) then tl S else S);
          hex = (take 2 S1 = [0x30, 0x78] \<or> take 2 S1 = [0x30, 0x58]);
          R = (if hex then 16 else 10);
          S2 = (if hex then drop 2 S1 else S1);
          Z = takeWhile (\<lambda>c. radix_digit R c \<noteq> None) S2
      in if Z = [] then NaN else Fin (of_int (sign * int (radix_value R 0 Z))))"

text \<open>
  The ExponentPart after a mantissa, if there is one: \<open>e\<close> or \<open>E\<close>, an optional sign and
  at least one digit. Without one the literal ends at the mantissa and the exponent is 0.
\<close>

definition exponent_part :: "jsstring \<Rightarrow> int" where
  "exponent_part s =
     (if s \<noteq> [] \<and> (hd s = 0x65 \<or> hd s = 0x45) then
        (let r = tl s;
             r1 = (if r \<noteq> [] \<and> (hd r = PLUS \<or> hd r = MINUS) then tl r else r);
             ds = takeWhile is_digit r1
         in if ds = [] then 0
            else if r \<noteq> [] \<and> hd r = MINUS then - int (radix_value 10 0 ds)
            else int (radix_value 10 0 ds))
      else 0)"

definition scale10 :: "rat \<Rightarrow> int \<Rightarrow> rat" where
  "scale10 m e = (if 0 \<le> e then m * 10 ^ nat e else m / 10 ^ nat (- e))"

text \<open>
  The longest prefix that is a StrUnsignedDecimalLiteral: \<open>Infinity\<close>, or digits with an
  optional fraction, or a fraction alone, each with an optional exponent.
\<close>

definition unsigned_decimal :: "jsstring \<Rightarrow> number" where
  "unsigned_decimal s =
     (if take 8 s = [0x49, 0x6E, 0x66, 0x69, 0x6E, 0x69, 0x74, 0x79] then PosInf
      else
        (let ip = takeWhile is_digit s; r = dropWhile is_digit s
         in if r \<noteq> [] \<and> hd r = DOT then
              (let fp = takeWhile is_digit (tl r); r2 = dropWhile is_digit (tl r)
               in if ip = [] \<and> fp = [] then NaN
                  else Fin (scale10 (of_nat (radix_value 10 0 ip)
                              + of_nat (radix_value 10 0 fp) / 10 ^ length fp)
                            (exponent_part r2)))
            else if ip = [] then NaN
            else Fin (scale10 (of_nat (radix_value 10 0 ip)) (exponent_part r))))"

definition parseFloat :: "jsstring \<Rightarrow> number" where
  "parseFloat inputString =
     (let S = trim_start inputString
      in if S \<noteq> [] \<and> hd S = MINUS then num_neg (unsigned_decimal (tl S))
         else if S \<noteq> [] \<and> hd S = PLUS then unsigned_decimal (tl S)
         else unsigned_decimal S)"

section \<open>Data model (AudioPlayer.tsx)\<close>

record LyricLine =
  time :: number
  text' :: jsstring

section \<open>Active-line resolver (LyricsViewer, first effect)\<close>

text \<open>\<open>xs[i]\<close>: \<open>undefined\<close> (here \<open>None\<close>) out of range.\<close>

definition index_opt :: "'a list \<Rightarrow> nat \<Rightarrow> 'a option" where
  "index_opt xs i = (if i < length xs then Some (xs ! i) else None)"

text \<open>\<open>Array.prototype.findIndex\<close>: the first index whose element satisfies the callback, else -1.\<close>

fun findIndex_from :: "('a \<Rightarrow> nat \<Rightarrow> bool) \<Rightarrow> 'a list \<Rightarrow> nat \<Rightarrow> int" where
  "findIndex_from p [] k = -1"
| "findIndex_from p (x # xs) k = (if p x k then int k else findIndex_from p xs (Suc k))"

definition findIndex :: "('a \<Rightarrow> nat \<Rightarrow> bool) \<Rightarrow> 'a list \<Rightarrow> int" where
  "findIndex p xs = findIndex_from p xs 0"

text \<open>
  The callback of the effect. \<open>!nextLine\<close> holds exactly when \<open>lyrics[index + 1]\<close> is
  \<open>undefined\<close>, an object being truthy.
\<close>

definition activeLineCallback :: "LyricLine list \<Rightarrow> number \<Rightarrow> LyricLine \<Rightarrow> nat \<Rightarrow> bool" where
  "activeLineCallback lyrics currentTime line index =
     (num_ge currentTime (time line) \<and>
      (case index_opt lyrics (index + 1) of
         None \<Rightarrow> True
       | Some nextLine \<Rightarrow> num_lt currentTime (time nextLine)))"

text \<open>
  The effect itself, as a step on the state variable \<open>currentLineIndex\<close> (initially -1):
  with \<open>lyrics\<close> absent it returns before \<open>setCurrentLineIndex\<close>, and the variable keeps
  its value.
\<close>

definition resolveActiveLine :: "LyricLine list option \<Rightarrow> number \<Rightarrow> int \<Rightarrow> int" where
  "resolveActiveLine lyrics currentTime currentLineIndex =
     (case lyrics of
        None \<Rightarrow> currentLineIndex
      | Some ls \<Rightarrow> findIndex (activeLineCallback ls currentTime) ls)"

definition initialLineIndex :: int where
  "initialLineIndex = -1"

section \<open>Timestamped-lyrics parser (\<open>parseLRCFile\<close>)\<close>

text \<open>
  \<open>line.match(/\[(\d{2}):(\d{2})\.(\d{2})\](.*)/)\<close>. The pattern has no anchor, so the
  match is the leftmost one; after the ten code units of the marker, \<open>(.*)\<close> takes every
  code unit up to the first line terminator or the end. \<open>regex_at\<close> tries the pattern at
  the start of its argument and gives the four groups.
\<close>

definition regex_at :: "jsstring \<Rightarrow> (jsstring \<times> jsstring \<times> jsstring \<times> jsstring) option" where
  "regex_at s =
     (if 10 \<le> length s \<and> s ! 0 = LBRACKET \<and> is_digit (s ! 1) \<and> is_digit (s ! 2) \<and>
         s ! 3 = COLON \<and> is_digit (s ! 4) \<and> is_digit (s ! 5) \<and> s ! 6 = DOT \<and>
         is_digit (s ! 7) \<and> is_digit (s ! 8) \<and> s ! 9 = RBRACKET
      then Some ([s ! 1, s ! 2], [s ! 4, s ! 5], [s ! 7, s ! 8],
                 takeWhile (\<lambda>c. \<not> is_line_terminator c) (drop 10 s))
      else None)"

fun regex_match :: "jsstring \<Rightarrow> (jsstring \<times> jsstring \<times> jsstring \<times> jsstring) option" where
  "regex_match [] = None"
| "regex_match (c # cs) =
     (case regex_at (c # cs) of Some groups \<Rightarrow> Some groups | None \<Rightarrow> regex_match cs)"

text \<open>The body of the \<open>forEach\<close> callback: what one line pushes, if anything.\<close>

definition lrcLine :: "jsstring \<Rightarrow> LyricLine option" where
  "lrcLine line =
     (case regex_match line of
        None \<Rightarrow> None
      | Some (m1, m2, m3, m4) \<Rightarrow>
          (let minutes = parseInt m1;
               seconds = parseInt m2;
               centiseconds = parseInt m3;
               text = trim m4;
               t = num_add (num_add (num_mul minutes (Fin 60)) seconds)
                     (num_div centiseconds (Fin 100))
           in Some \<lparr>time = t, text' = text\<rparr>))"

fun lrcLoop :: "jsstring list \<Rightarrow> LyricLine list \<Rightarrow> LyricLine list" where
  "lrcLoop [] lyricsArray = lyricsArray"
| "lrcLoop (line # rest) lyricsArray =
     (case lrcLine line of
        None \<Rightarrow> lrcLoop rest lyricsArray
      | Some l \<Rightarrow> lrcLoop rest (lyricsArray @ [l]))"

text \<open>
  \<open>Array.prototype.sort\<close> with a comparator: \<open>x\<close> moves behind \<open>y\<close> only when the
  comparator is positive on \<open>(x, y)\<close> (a \<open>NaN\<close> result counts as 0). The sort is stable, so
  for a consistent comparator its result is the one of the insertion sort below, whichever
  algorithm the engine runs.
\<close>

fun insert_cmp :: "('a \<Rightarrow> 'a \<Rightarrow> number) \<Rightarrow> 'a \<Rightarrow> 'a list \<Rightarrow> 'a list" where
  "insert_cmp cmp x [] = [x]"
| "insert_cmp cmp x (y # ys) =
     (if num_lt (Fin 0) (cmp x y) then y # insert_cmp cmp x ys else x # y # ys)"

definition array_sort :: "('a \<Rightarrow> 'a \<Rightarrow> number) \<Rightarrow> 'a list \<Rightarrow> 'a list" where
  "array_sort cmp xs = foldr (insert_cmp cmp) xs []"

definition parseLRCFile :: "jsstring \<Rightarrow> LyricLine list" where
  "parseLRCFile content =
     (let lines = split_on NL content;
          lyricsArray = lrcLoop lines []
      in array_sort (\<lambda>a b. num_sub (time a) (time b)) lyricsArray)"

section \<open>Freeform parser (\<open>handleManualEdit\<close>, lines 89 to 115)\<close>

text \<open>
  The time expression. With a colon, \<open>timeStr.split(':')\<close> has at least two pieces and the
  destructuring takes the first two; a missing piece would be \<open>undefined\<close>, which both
  \<open>parseInt\<close> and \<open>parseFloat\<close> turn into \<open>NaN\<close>.
\<close>

definition parseTimeStr :: "jsstring \<Rightarrow> number" where
  "parseTimeStr timeStr =
     (if COLON \<in> set timeStr then
        (case split_on COLON timeStr of
           minutes # seconds # _ \<Rightarrow>
             num_add (num_mul (parseInt minutes) (Fin 60)) (parseFloat seconds)
         | _ \<Rightarrow> NaN)
      else parseFloat timeStr)"

text \<open>The body of the \<open>forEach\<close> callback: what the line at position \<open>index\<close> pushes.\<close>

definition manualLine :: "jsstring \<Rightarrow> nat \<Rightarrow> LyricLine" where
  "manualLine line index =
     (let parts = split_on PIPE line
      in if length parts = 2 then
           (let timeStr = trim (parts ! 0);
                text = trim (parts ! 1)
            in \<lparr>time = parseTimeStr timeStr, text' = text\<rparr>)
         else \<lparr>time = Fin (of_nat index * 3), text' = trim line\<rparr>)"

fun manualLoop :: "jsstring list \<Rightarrow> nat \<Rightarrow> LyricLine list \<Rightarrow> LyricLine list" where
  "manualLoop [] index parsedLyrics = parsedLyrics"
| "manualLoop (line # rest) index parsedLyrics =
     manualLoop rest (Suc index) (parsedLyrics @ [manualLine line index])"

text \<open>A string is truthy exactly when it is not empty.\<close>

definition retainedLines :: "jsstring \<Rightarrow> jsstring list" where
  "retainedLines lyricsText = filter (\<lambda>line. trim line \<noteq> []) (split_on NL lyricsText)"

definition parseManualLyrics :: "jsstring \<Rightarrow> LyricLine list" where
  "parseManualLyrics lyricsText = manualLoop (retainedLines lyricsText) 0 []"

section \<open>Edit-buffer serializer (the Edit button, line 222)\<close>

text \<open>The decimal digits of a natural number, most significant first.\<close>

fun digits_of :: "nat \<Rightarrow> jsstring" where
  "digits_of n = (if n < 10 then [ZERO + n] else digits_of (n div 10) @ [ZERO + n mod 10])"

declare digits_of.simps [simp del]

text \<open>
  \<open>Number::toString\<close> as the template literal applies it. It is given for the special
  values and for the integers of magnitude below \<open>2^53\<close>, which it prints with all their
  digits; these are the only values that the model passes to it.
\<close>

fun to_string :: "number \<Rightarrow> jsstring" where
  "to_string NaN = [0x4E, 0x61, 0x4E]"
| "to_string PosInf = [0x49, 0x6E, 0x66, 0x69, 0x6E, 0x69, 0x74, 0x79]"
| "to_string NegInf = [MINUS, 0x49, 0x6E, 0x66, 0x69, 0x6E, 0x69, 0x74, 0x79]"
| "to_string (Fin a) =
     (if a < 0 then MINUS # digits_of (nat (- \<lfloor>a\<rfloor>)) else digits_of (nat \<lfloor>a\<rfloor>))"

text \<open>
  \<open>Number.prototype.toFixed(2)\<close>: for a finite \<open>x\<close>, the sign, then the integer \<open>n\<close>
  nearest to \<open>100 * |x|\<close> (the larger one of two) written with at least three digits and
  a point before the last two. It is given for \<open>|x| < 10^21\<close>, where the method uses this
  notation: its argument in this program is a remainder modulo 60.
\<close>

definition fixed2 :: "rat \<Rightarrow> jsstring" where
  "fixed2 x =
     (let n = nat \<lfloor>100 * x + 1 / 2\<rfloor>;
          m = digits_of n;
          m1 = replicate (3 - length m) ZERO @ m
      in take (length m1 - 2) m1 @ [DOT] @ drop (length m1 - 2) m1)"

fun toFixed2 :: "number \<Rightarrow> jsstring" where
  "toFixed2 (Fin x) = (if x < 0 then MINUS # fixed2 (- x) else fixed2 x)"
| "toFixed2 x = to_string x"

definition padStart :: "nat \<Rightarrow> jschar \<Rightarrow> jsstring \<Rightarrow> jsstring" where
  "padStart n c s = replicate (n - length s) c @ s"

text \<open>
  The times whose serialization the model covers: the special values and the finite times
  of magnitude below \<open>2^53\<close>. For such a finite time the quotient by 60, although rounded
  to a double by the program, has the floor of the exact quotient, and the floor is printed
  with all its digits; the remainder of \<open>%\<close> is exact for every double, and \<open>toFixed\<close>
  rounds the exact value. From \<open>2^53\<close> on, the rounded quotient can reach the next integer
  and \<open>Number::toString\<close> prints the shortest digits that identify the double: the
  arithmetic of the model, which is exact, does not describe this.
\<close>

fun in_model :: "number \<Rightarrow> bool" where
  "in_model (Fin q) = (\<bar>q\<bar> < 2 ^ 53)"
| "in_model _ = True"

text \<open>
  \<open>${Math.floor(l.time / 60)}\<close>, the text of the minutes: \<open>None\<close> stands for a text that
  the model does not give.
\<close>

definition minutes_text :: "number \<Rightarrow> jsstring option" where
  "minutes_text t =
     (if in_model t then Some (to_string (math_floor (num_div t (Fin 60)))) else None)"

text \<open>The callback of \<open>lyrics.map\<close>: the line of one entry.\<close>

definition serializeLine :: "LyricLine \<Rightarrow> jsstring option" where
  "serializeLine l =
     (case minutes_text (time l) of
        None \<Rightarrow> None
      | Some minutes \<Rightarrow>
          Some (minutes @ [COLON] @
                padStart 5 ZERO (toFixed2 (num_rem (time l) (Fin 60))) @ [PIPE] @ text' l))"

text \<open>
  \<open>lyrics?.map(...).join('\n') || ''\<close>: the empty string when \<open>lyrics\<close> is absent. The
  buffer is given when every line is.
\<close>

definition serializeLyrics :: "LyricLine list option \<Rightarrow> jsstring option" where
  "serializeLyrics lyrics =
     (case lyrics of
        None \<Rightarrow> Some []
      | Some ls \<Rightarrow> map_option (join [NL]) (those (map serializeLine ls)))"

section \<open>The handlers and the coordinator (\<open>MusicApp.tsx\<close>)\<close>

record Song =
  song_id :: jsstring
  title :: jsstring
  artist :: jsstring
  src :: jsstring
  lyrics :: "LyricLine list option"

text \<open>The state of the coordinator that the lyrics handlers read or write.\<close>

record MusicApp =
  songs :: "Song list"
  currentSongIndex :: int

text \<open>
  \<open>handleLyricsUpdate\<close>: \<open>prev.map\<close> over the songs with their indices; the song at
  \<open>currentSongIndex\<close> is copied with a new \<open>lyrics\<close> field, the others are kept.
\<close>

definition handleLyricsUpdate :: "LyricLine list \<Rightarrow> MusicApp \<Rightarrow> MusicApp" where
  "handleLyricsUpdate ls app =
     app\<lparr>songs :=
       map (\<lambda>(index, song). if int index = currentSongIndex app
                             then song\<lparr>lyrics := Some ls\<rparr> else song)
           (enumerate 0 (songs app))\<rparr>"

text \<open>
  What a handler of the viewer does to the outside: the calls of the \<open>onLyricsUpdate\<close>
  property, applied to the state of the coordinator, and the toasts, recorded in order.
\<close>

datatype toast = ToastSuccess jsstring | ToastError jsstring

record 'w outside =
  world :: 'w
  toasts :: "toast list"

text \<open>\<open>onLyricsUpdate?.(parsedLyrics)\<close>: nothing happens when the property is absent.\<close>

definition callOnLyricsUpdate ::
  "(LyricLine list \<Rightarrow> 'w \<Rightarrow> 'w) option \<Rightarrow> LyricLine list \<Rightarrow> 'w outside \<Rightarrow> 'w outside" where
  "callOnLyricsUpdate onLyricsUpdate ls out =
     (case onLyricsUpdate of None \<Rightarrow> out | Some f \<Rightarrow> out\<lparr>world := f ls (world out)\<rparr>)"

definition toast_show :: "toast \<Rightarrow> 'w outside \<Rightarrow> 'w outside" where
  "toast_show t out = out\<lparr>toasts := toasts out @ [t]\<rparr>"

text \<open>\<open>String.prototype.endsWith\<close>.\<close>

definition endsWith :: "jsstring \<Rightarrow> jsstring \<Rightarrow> bool" where
  "endsWith s suffix = (length suffix \<le> length s \<and> drop (length s - length suffix) s = suffix)"

text \<open>
  \<open>handleLRCUpload\<close>. The event carries the first selected file, if any, with its name
  (\<open>file.name\<close>) and its content; the content reaches \<open>reader.onload\<close> as
  \<open>e.target.result\<close> once the read has completed, and the model is of a read that
  completes.
\<close>

record upload_file =
  file_name :: jsstring
  file_content :: jsstring

definition handleLRCUpload ::
  "(LyricLine list \<Rightarrow> 'w \<Rightarrow> 'w) option \<Rightarrow> upload_file option \<Rightarrow> 'w outside \<Rightarrow> 'w outside" where
  "handleLRCUpload onLyricsUpdate file out =
     (case file of
        None \<Rightarrow> toast_show (ToastError (js ''Please upload a valid .lrc file'')) out
      | Some f \<Rightarrow>
          if endsWith (file_name f) (js ''.lrc'') then
            (let parsedLyrics = parseLRCFile (file_content f)
             in toast_show (ToastSuccess (js ''Lyrics uploaded successfully!''))
                  (callOnLyricsUpdate onLyricsUpdate parsedLyrics out))
          else toast_show (ToastError (js ''Please upload a valid .lrc file'')) out)"

text \<open>\<open>handleManualEdit\<close> on the state of the viewer: Save, when in edit mode.\<close>

record viewer =
  editMode :: bool
  lyricsText :: jsstring

definition handleManualEdit ::
  "(LyricLine list \<Rightarrow> 'w \<Rightarrow> 'w) option \<Rightarrow> viewer \<Rightarrow> 'w outside \<Rightarrow> viewer \<times> 'w outside" where
  "handleManualEdit onLyricsUpdate v out =
     (if editMode v then
        (v\<lparr>editMode := False\<rparr>,
         toast_show (ToastSuccess (js ''Lyrics updated!''))
           (callOnLyricsUpdate onLyricsUpdate (parseManualLyrics (lyricsText v)) out))
      else (v\<lparr>editMode := True\<rparr>, out))"

section \<open>Notions of the specification\<close>

text \<open>The window condition of the specification, on positions.\<close>

definition in_window :: "LyricLine list \<Rightarrow> number \<Rightarrow> nat \<Rightarrow> bool" where
  "in_window ls t i =
     (num_ge t (time (ls ! i)) \<and> (Suc i = length ls \<or> num_lt t (time (ls ! Suc i))))"

definition sorted_by_time :: "LyricLine list \<Rightarrow> bool" where
  "sorted_by_time ls = sorted_wrt (\<lambda>a b. num_le (time a) (time b)) ls"

text \<open>
  A time marker \<open>[ab:cd.ef]\<close> with the decimal digits \<open>a\<close> to \<open>f\<close>, and the lines that
  contain one somewhere.
\<close>

definition marker :: "nat \<Rightarrow> nat \<Rightarrow> nat \<Rightarrow> nat \<Rightarrow> nat \<Rightarrow> nat \<Rightarrow> jsstring" where
  "marker a b c d e f =
     [LBRACKET, ZERO + a, ZERO + b, COLON, ZERO + c, ZERO + d, DOT, ZERO + e, ZERO + f, RBRACKET]"

definition has_marker :: "jsstring \<Rightarrow> bool" where
  "has_marker line \<longleftrightarrow>
     (\<exists>pre a b c d e f rest. a < 10 \<and> b < 10 \<and> c < 10 \<and> d < 10 \<and> e < 10 \<and> f < 10 \<and>
        line = pre @ marker a b c d e f @ rest)"

text \<open>A time that is a finite number, not negative.\<close>

definition non_negative :: "number \<Rightarrow> bool" where
  "non_negative t \<longleftrightarrow> (\<exists>q. t = Fin q \<and> 0 \<le> q)"

text \<open>
  The freeform parser in the words of the specification (section 4.2): the lines that are
  white space only are discarded; a retained line that splits at \<open>|\<close> into exactly two
  parts gives the time expression and the text; a time expression with a colon is
  \<open>minutes:seconds\<close> and its value is \<open>minutes * 60 + seconds\<close>, one without is a plain
  number of seconds; any other retained line is text, with the time \<open>index * 3\<close>, the
  index counting the retained lines from 0. The output is in the order of the retained
  lines.
\<close>

definition whitespace_only :: "jsstring \<Rightarrow> bool" where
  "whitespace_only line \<longleftrightarrow> (\<forall>c\<in>set line. is_white_space c)"

definition spec_time_expression :: "jsstring \<Rightarrow> number" where
  "spec_time_expression e =
     (if COLON \<in> set e then
        (let minutes = takeWhile (\<lambda>c. c \<noteq> COLON) e;
             seconds = takeWhile (\<lambda>c. c \<noteq> COLON) (tl (dropWhile (\<lambda>c. c \<noteq> COLON) e))
         in num_add (num_mul (parseInt minutes) (Fin 60)) (parseFloat seconds))
      else parseFloat e)"

definition spec_freeform_entry :: "nat \<Rightarrow> jsstring \<Rightarrow> LyricLine" where
  "spec_freeform_entry index line =
     (case split_on PIPE line of
        [first, second] \<Rightarrow> \<lparr>time = spec_time_expression first, text' = trim second\<rparr>
      | _ \<Rightarrow> \<lparr>time = Fin (of_nat index * 3), text' = trim line\<rparr>)"

definition spec_freeform :: "jsstring \<Rightarrow> LyricLine list" where
  "spec_freeform buf =
     (let retained = filter (\<lambda>line. \<not> whitespace_only line) (split_on NL buf)
      in map (\<lambda>index. spec_freeform_entry index (retained ! index)) [0..<length retained])"

text \<open>
  Rounding a time to hundredths of a second (to the nearest hundredth, a half going up),
  and the entries that the edit buffer can carry: the time is finite, not negative and
  below \<open>2^53\<close> seconds, and the text has no \<open>|\<close>, no newline and no white space at either
  end.
\<close>

definition round_hundredths :: "rat \<Rightarrow> rat" where
  "round_hundredths q = of_int \<lfloor>100 * q + 1 / 2\<rfloor> / 100"

definition rounded :: "LyricLine \<Rightarrow> LyricLine" where
  "rounded l = l\<lparr>time := (case time l of Fin q \<Rightarrow> Fin (round_hundredths q) | t \<Rightarrow> t)\<rparr>"

definition serializable :: "LyricLine \<Rightarrow> bool" where
  "serializable l \<longleftrightarrow>
     (\<exists>q. time l = Fin q \<and> 0 \<le> q \<and> q < 2 ^ 53) \<and>
     PIPE \<notin> set (text' l) \<and> NL \<notin> set (text' l) \<and> trim (text' l) = text' l"





section \<open>Properties\<close>

subsection \<open>The active-line resolver\<close>

lemma findIndex_from_cases:
  "(findIndex_from p xs k = -1 \<and> (\<forall>i<length xs. \<not> p (xs ! i) (k + i))) \<or>
   (\<exists>i<length xs. findIndex_from p xs k = int (k + i) \<and> p (xs ! i) (k + i) \<and>
       (\<forall>j<i. \<not> p (xs ! j) (k + j)))"
proof (induction xs arbitrary: k)
  case Nil
  then show ?case by simp
next
  case (Cons x xs)
  show ?case
  proof (cases "p x k")
    case True
    then show ?thesis by auto
  next
    case False
    from Cons.IH[of "Suc k"] show ?thesis
    proof
      assume a: "findIndex_from p xs (Suc k) = - 1 \<and> (\<forall>i<length xs. \<not> p (xs ! i) (Suc k + i))"
      have "\<forall>i<length (x # xs). \<not> p ((x # xs) ! i) (k + i)"
      proof (intro allI impI)
        fix i assume "i < length (x # xs)"
        then show "\<not> p ((x # xs) ! i) (k + i)" using a False by (cases i) auto
      qed
      then show ?thesis using a False by simp
    next
      assume "\<exists>i<length xs. findIndex_from p xs (Suc k) = int (Suc k + i) \<and> p (xs ! i) (Suc k + i) \<and>
          (\<forall>j<i. \<not> p (xs ! j) (Suc k + j))"
      then obtain i where i: "i < length xs" "findIndex_from p xs (Suc k) = int (Suc k + i)"
        "p (xs ! i) (Suc k + i)" "\<forall>j<i. \<not> p (xs ! j) (Suc k + j)" by blast
      have "\<forall>j<Suc i. \<not> p ((x # xs) ! j) (k + j)"
      proof (intro allI impI)
        fix j assume "j < Suc i"
        then show "\<not> p ((x # xs) ! j) (k + j)" using i(4) False by (cases j) auto
      qed
      then have "Suc i < length (x # xs) \<and> findIndex_from p (x # xs) k = int (k + Suc i) \<and>
          p ((x # xs) ! Suc i) (k + Suc i) \<and> (\<forall>j<Suc i. \<not> p ((x # xs) ! j) (k + j))"
        using i False by simp
      then show ?thesis by blast
    qed
  qed
qed

lemma callback_window:
  "i < length ls \<Longrightarrow> activeLineCallback ls t (ls ! i) i = in_window ls t i"
  by (auto simp: activeLineCallback_def in_window_def index_opt_def)

lemma findIndex_window:
  "(findIndex (activeLineCallback ls t) ls = -1 \<and> (\<forall>i<length ls. \<not> in_window ls t i)) \<or>
   (\<exists>i<length ls. findIndex (activeLineCallback ls t) ls = int i \<and> in_window ls t i \<and>
       (\<forall>j<i. \<not> in_window ls t j))"
proof -
  from findIndex_from_cases[of "activeLineCallback ls t" ls 0] show ?thesis
  proof
    assume "findIndex_from (activeLineCallback ls t) ls 0 = - 1 \<and>
      (\<forall>i<length ls. \<not> activeLineCallback ls t (ls ! i) (0 + i))"
    then show ?thesis by (simp add: findIndex_def callback_window)
  next
    assume "\<exists>i<length ls. findIndex_from (activeLineCallback ls t) ls 0 = int (0 + i) \<and>
      activeLineCallback ls t (ls ! i) (0 + i) \<and> (\<forall>j<i. \<not> activeLineCallback ls t (ls ! j) (0 + j))"
    then obtain i where i: "i < length ls" "findIndex_from (activeLineCallback ls t) ls 0 = int i"
      "activeLineCallback ls t (ls ! i) i" "\<forall>j<i. \<not> activeLineCallback ls t (ls ! j) j" by auto
    have "\<forall>j<i. \<not> in_window ls t j" using i(1,4) by (simp add: callback_window)
    then show ?thesis using i by (auto simp: findIndex_def callback_window)
  qed
qed

lemma num_lt_le_trans: "num_lt t a \<Longrightarrow> num_le a b \<Longrightarrow> num_lt t b"
  by (cases t; cases a; cases b) auto

lemma num_lt_not_ge: "num_lt t a \<Longrightarrow> \<not> num_ge t a"
  by (cases t; cases a) (auto simp: num_ge_def)

lemma before_all_no_window:
  assumes "\<forall>l\<in>set ls. num_lt t (time l)"
  shows "\<forall>i<length ls. \<not> in_window ls t i"
  using assms by (auto simp: in_window_def dest: num_lt_not_ge)

lemma sorted_before_first:
  assumes "sorted_by_time ls" "ls \<noteq> []" "num_lt t (time (hd ls))"
  shows "\<forall>l\<in>set ls. num_lt t (time l)"
proof -
  obtain x xs where ls: "ls = x # xs" using assms(2) by (cases ls) auto
  have "\<forall>y\<in>set xs. num_le (time x) (time y)"
    using assms(1) by (simp add: ls sorted_by_time_def)
  then show ?thesis using assms(3) by (auto simp: ls intro: num_lt_le_trans)
qed

text \<open>
  C1 (amended). When the lyric sequence is present, the resolver sets the index to the first
  position \<open>i\<close> with \<open>currentTime >= lyrics[i].time\<close> and (\<open>i\<close> is the last position or
  \<open>currentTime < lyrics[i+1].time\<close>), and to -1 ("none") when no position qualifies. It
  is -1 whenever \<open>currentTime\<close> is strictly before the time of every entry, hence whenever
  the sequence is sorted by time and \<open>currentTime\<close> is strictly before the first entry's
  time. When the sequence is absent the effect leaves the index as it was, which is -1
  initially. For the times 0, 3, 6: time 4 gives 1, time -1 gives -1, time 6 gives 2 and
  time 1000 gives 2.
\<close>

theorem resolveActiveLine_first_window:
  "(let r = resolveActiveLine (Some ls) t prev in
      ((r = - 1 \<and> (\<forall>i<length ls. \<not> in_window ls t i)) \<or>
       (0 \<le> r \<and> nat r < length ls \<and> in_window ls t (nat r) \<and>
          (\<forall>j<nat r. \<not> in_window ls t j))) \<and>
      ((\<forall>l\<in>set ls. num_lt t (time l)) \<longrightarrow> r = - 1) \<and>
      (sorted_by_time ls \<and> ls \<noteq> [] \<and> num_lt t (time (hd ls)) \<longrightarrow> r = - 1)) \<and>
   resolveActiveLine None t prev = prev \<and>
   resolveActiveLine None t initialLineIndex = - 1 \<and>
   resolveActiveLine (Some [\<lparr>time = Fin 0, text' = a\<rparr>, \<lparr>time = Fin 3, text' = b\<rparr>,
      \<lparr>time = Fin 6, text' = c\<rparr>]) (Fin 4) prev = 1 \<and>
   resolveActiveLine (Some [\<lparr>time = Fin 0, text' = a\<rparr>, \<lparr>time = Fin 3, text' = b\<rparr>,
      \<lparr>time = Fin 6, text' = c\<rparr>]) (Fin (- 1)) prev = - 1 \<and>
   resolveActiveLine (Some [\<lparr>time = Fin 0, text' = a\<rparr>, \<lparr>time = Fin 3, text' = b\<rparr>,
      \<lparr>time = Fin 6, text' = c\<rparr>]) (Fin 6) prev = 2 \<and>
   resolveActiveLine (Some [\<lparr>time = Fin 0, text' = a\<rparr>, \<lparr>time = Fin 3, text' = b\<rparr>,
      \<lparr>time = Fin 6, text' = c\<rparr>]) (Fin 1000) prev = 2"
proof -
  define r where "r = resolveActiveLine (Some ls) t prev"
  have r: "r = findIndex (activeLineCallback ls t) ls"
    by (simp add: r_def resolveActiveLine_def)
  have first: "(r = - 1 \<and> (\<forall>i<length ls. \<not> in_window ls t i)) \<or>
       (0 \<le> r \<and> nat r < length ls \<and> in_window ls t (nat r) \<and>
          (\<forall>j<nat r. \<not> in_window ls t j))"
    using findIndex_window[of ls t] unfolding r by auto
  have before: "r = - 1" if "\<forall>l\<in>set ls. num_lt t (time l)"
    using first before_all_no_window[OF that] by auto
  have sorted: "r = - 1" if "sorted_by_time ls \<and> ls \<noteq> [] \<and> num_lt t (time (hd ls))"
    using before sorted_before_first[of ls t] that by blast
  have ex: "resolveActiveLine (Some [\<lparr>time = Fin 0, text' = a\<rparr>, \<lparr>time = Fin 3, text' = b\<rparr>,
      \<lparr>time = Fin 6, text' = c\<rparr>]) (Fin 4) prev = 1"
    "resolveActiveLine (Some [\<lparr>time = Fin 0, text' = a\<rparr>, \<lparr>time = Fin 3, text' = b\<rparr>,
      \<lparr>time = Fin 6, text' = c\<rparr>]) (Fin (- 1)) prev = - 1"
    "resolveActiveLine (Some [\<lparr>time = Fin 0, text' = a\<rparr>, \<lparr>time = Fin 3, text' = b\<rparr>,
      \<lparr>time = Fin 6, text' = c\<rparr>]) (Fin 6) prev = 2"
    "resolveActiveLine (Some [\<lparr>time = Fin 0, text' = a\<rparr>, \<lparr>time = Fin 3, text' = b\<rparr>,
      \<lparr>time = Fin 6, text' = c\<rparr>]) (Fin 1000) prev = 2"
    by (simp_all add: resolveActiveLine_def findIndex_def activeLineCallback_def index_opt_def
        num_ge_def)
  have absent: "resolveActiveLine None t prev = prev"
    "resolveActiveLine None t initialLineIndex = - 1"
    by (simp_all add: resolveActiveLine_def initialLineIndex_def)
  show ?thesis
    unfolding Let_def r_def[symmetric] using first before sorted ex absent by blast
qed

text \<open>
  C1 as stated fails on a sequence that is not sorted: with the times 5, 1 and the current
  time 2, strictly before the first entry's time, the resolver answers 1, not "none".
\<close>

theorem resolveActiveLine_unsorted_counterexample:
  "num_lt (Fin 2) (time (hd [\<lparr>time = Fin 5, text' = []\<rparr>, \<lparr>time = Fin 1, text' = []\<rparr>])) \<and>
   resolveActiveLine (Some [\<lparr>time = Fin 5, text' = []\<rparr>, \<lparr>time = Fin 1, text' = []\<rparr>]) (Fin 2)
     initialLineIndex = 1"
  by (simp add: resolveActiveLine_def findIndex_def activeLineCallback_def index_opt_def
      num_ge_def)

theorem resolveActiveLine_first_window_witness:
  "sorted_by_time [\<lparr>time = Fin 0, text' = []\<rparr>, \<lparr>time = Fin 3, text' = []\<rparr>, \<lparr>time = Fin 6, text' = []\<rparr>] \<and>
   num_lt (Fin (- 1)) (time (hd [\<lparr>time = Fin 0, text' = []\<rparr>, \<lparr>time = Fin 3, text' = []\<rparr>, \<lparr>time = Fin 6, text' = []\<rparr>])) \<and>
   resolveActiveLine (Some [\<lparr>time = Fin 0, text' = []\<rparr>, \<lparr>time = Fin 3, text' = []\<rparr>, \<lparr>time = Fin 6, text' = []\<rparr>]) (Fin (- 1)) 2 = - 1 \<and>
   in_window [\<lparr>time = Fin 0, text' = []\<rparr>, \<lparr>time = Fin 3, text' = []\<rparr>, \<lparr>time = Fin 6, text' = []\<rparr>] (Fin 4) 1 \<and>
   \<not> in_window [\<lparr>time = Fin 0, text' = []\<rparr>, \<lparr>time = Fin 3, text' = []\<rparr>, \<lparr>time = Fin 6, text' = []\<rparr>] (Fin 4) 0 \<and>
   resolveActiveLine (Some [\<lparr>time = Fin 0, text' = []\<rparr>, \<lparr>time = Fin 3, text' = []\<rparr>, \<lparr>time = Fin 6, text' = []\<rparr>]) (Fin 4) 2 = 1"
  using resolveActiveLine_first_window[of "[\<lparr>time = Fin 0, text' = []\<rparr>, \<lparr>time = Fin 3, text' = []\<rparr>, \<lparr>time = Fin 6, text' = []\<rparr>]" "Fin (- 1)" 2 "[]" "[]" "[]"]
    resolveActiveLine_first_window[of "[\<lparr>time = Fin 0, text' = []\<rparr>, \<lparr>time = Fin 3, text' = []\<rparr>, \<lparr>time = Fin 6, text' = []\<rparr>]" "Fin 4" 2 "[]" "[]" "[]"]
  by (simp add: sorted_by_time_def in_window_def num_ge_def)

subsection \<open>The freeform parser: one entry per retained line\<close>

lemma manualLoop_enumerate:
  "manualLoop ls k acc = acc @ map (\<lambda>(i, l). manualLine l i) (enumerate k ls)"
  by (induction ls arbitrary: k acc) simp_all

lemma parseManualLyrics_map:
  "parseManualLyrics buf = map (\<lambda>(i, l). manualLine l i) (enumerate 0 (retainedLines buf))"
  by (simp add: parseManualLyrics_def manualLoop_enumerate)

lemma dropWhile_all_iff: "(\<forall>x\<in>set (dropWhile P s). P x) \<longleftrightarrow> (\<forall>x\<in>set s. P x)"
proof
  assume a: "\<forall>x\<in>set (dropWhile P s). P x"
  have "dropWhile P s = []"
  proof (rule ccontr)
    assume n: "dropWhile P s \<noteq> []"
    then have "\<not> P (hd (dropWhile P s))" by (rule hd_dropWhile)
    moreover have "hd (dropWhile P s) \<in> set (dropWhile P s)" using n by simp
    ultimately show False using a by blast
  qed
  then show "\<forall>x\<in>set s. P x" by (simp add: dropWhile_eq_Nil_conv)
next
  assume "\<forall>x\<in>set s. P x"
  then show "\<forall>x\<in>set (dropWhile P s). P x" by (auto dest: set_dropWhileD)
qed

lemma trim_empty_iff: "trim s = [] \<longleftrightarrow> (\<forall>c\<in>set s. is_white_space c)"
  by (simp add: trim_def dropWhile_eq_Nil_conv dropWhile_all_iff)

text \<open>
  C10. The freeform parser emits exactly one entry per retained line: the output is as long
  as the list of the retained lines (the lines of the buffer that are not white space
  only), and its entry at position \<open>i\<close> is the one computed from the retained line at
  position \<open>i\<close>. No retained line is dropped, a line whose time expression is not numeric
  included: \<open>x y|hello\<close> gives an entry, with the time \<open>NaN\<close>.
\<close>

theorem parseManualLyrics_one_entry_per_line:
  "length (parseManualLyrics buf) = length (retainedLines buf) \<and>
   (\<forall>i<length (retainedLines buf).
      parseManualLyrics buf ! i = manualLine (retainedLines buf ! i) i) \<and>
   retainedLines buf = filter (\<lambda>line. \<exists>c\<in>set line. \<not> is_white_space c) (split_on NL buf) \<and>
   parseManualLyrics (js ''x y|hello'') = [\<lparr>time = NaN, text' = js ''hello''\<rparr>]"
proof -
  have 1: "length (parseManualLyrics buf) = length (retainedLines buf)"
    by (simp add: parseManualLyrics_map)
  have 2: "\<forall>i<length (retainedLines buf).
      parseManualLyrics buf ! i = manualLine (retainedLines buf ! i) i"
    by (simp add: parseManualLyrics_map nth_enumerate_eq)
  have 3: "retainedLines buf = filter (\<lambda>line. \<exists>c\<in>set line. \<not> is_white_space c) (split_on NL buf)"
    by (simp add: retainedLines_def trim_empty_iff)
  have 4: "parseManualLyrics (js ''x y|hello'') = [\<lparr>time = NaN, text' = js ''hello''\<rparr>]"
    by (simp add: parseManualLyrics_def retainedLines_def js_def trim_def is_white_space_def
        manualLine_def parseTimeStr_def parseFloat_def trim_start_def unsigned_decimal_def
        is_digit_def)
  show ?thesis using 1 2 3 4 by blast
qed

theorem parseManualLyrics_one_entry_per_line_witness:
  "length (retainedLines (js ''a|b|c\<newline>  \<newline>7|x'')) = 2 \<and>
   parseManualLyrics (js ''a|b|c\<newline>  \<newline>7|x'') ! 1 = \<lparr>time = Fin 7, text' = js ''x''\<rparr>"
proof -
  have r: "retainedLines (js ''a|b|c\<newline>  \<newline>7|x'') = [js ''a|b|c'', js ''7|x'']"
    by (simp add: retainedLines_def js_def trim_def is_white_space_def)
  have m: "manualLine (js ''7|x'') 1 = \<lparr>time = Fin 7, text' = js ''x''\<rparr>"
    by (simp add: js_def trim_def is_white_space_def
        manualLine_def parseTimeStr_def parseFloat_def trim_start_def unsigned_decimal_def
        is_digit_def exponent_part_def scale10_def radix_digit_def)
  have "parseManualLyrics (js ''a|b|c\<newline>  \<newline>7|x'') ! 1 =
      manualLine (retainedLines (js ''a|b|c\<newline>  \<newline>7|x'') ! 1) 1"
    using parseManualLyrics_one_entry_per_line[of "js ''a|b|c\<newline>  \<newline>7|x''",
        THEN conjunct2, THEN conjunct1] r by simp
  then show ?thesis using r m by simp
qed

subsection \<open>The lyrics-update operation of the coordinator\<close>

text \<open>
  C8. With the selected index \<open>i\<close> in range, the lyrics-update operation replaces the
  \<open>lyrics\<close> field of the song at \<open>i\<close> by the whole new sequence: the song at \<open>i\<close> is the old
  one with this field alone changed, so its id, title, artist and src are the old ones;
  every other song is unchanged, and so are the number of songs and the selected index.
\<close>

theorem handleLyricsUpdate_frame:
  assumes "0 \<le> currentSongIndex app" and "nat (currentSongIndex app) < length (songs app)"
  shows "length (songs (handleLyricsUpdate L app)) = length (songs app) \<and>
     currentSongIndex (handleLyricsUpdate L app) = currentSongIndex app \<and>
     songs (handleLyricsUpdate L app) ! nat (currentSongIndex app)
       = (songs app ! nat (currentSongIndex app))\<lparr>lyrics := Some L\<rparr> \<and>
     lyrics (songs (handleLyricsUpdate L app) ! nat (currentSongIndex app)) = Some L \<and>
     song_id (songs (handleLyricsUpdate L app) ! nat (currentSongIndex app))
       = song_id (songs app ! nat (currentSongIndex app)) \<and>
     title (songs (handleLyricsUpdate L app) ! nat (currentSongIndex app))
       = title (songs app ! nat (currentSongIndex app)) \<and>
     artist (songs (handleLyricsUpdate L app) ! nat (currentSongIndex app))
       = artist (songs app ! nat (currentSongIndex app)) \<and>
     src (songs (handleLyricsUpdate L app) ! nat (currentSongIndex app))
       = src (songs app ! nat (currentSongIndex app)) \<and>
     (\<forall>j<length (songs app). j \<noteq> nat (currentSongIndex app) \<longrightarrow>
        songs (handleLyricsUpdate L app) ! j = songs app ! j)"
proof -
  have nth: "songs (handleLyricsUpdate L app) ! j =
      (if int j = currentSongIndex app then (songs app ! j)\<lparr>lyrics := Some L\<rparr> else songs app ! j)"
    if "j < length (songs app)" for j
    using that by (simp add: handleLyricsUpdate_def nth_enumerate_eq)
  have len: "length (songs (handleLyricsUpdate L app)) = length (songs app)"
    by (simp add: handleLyricsUpdate_def)
  have cur: "currentSongIndex (handleLyricsUpdate L app) = currentSongIndex app"
    by (simp add: handleLyricsUpdate_def)
  have i: "songs (handleLyricsUpdate L app) ! nat (currentSongIndex app)
       = (songs app ! nat (currentSongIndex app))\<lparr>lyrics := Some L\<rparr>"
    using nth[OF assms(2)] assms(1) by simp
  have others: "\<forall>j<length (songs app). j \<noteq> nat (currentSongIndex app) \<longrightarrow>
        songs (handleLyricsUpdate L app) ! j = songs app ! j"
    using nth assms(1) by auto
  show ?thesis using len cur others by (simp add: i)
qed

theorem handleLyricsUpdate_frame_witness:
  "songs (handleLyricsUpdate [\<lparr>time = Fin 1, text' = js ''la''\<rparr>]
      \<lparr>songs = [\<lparr>song_id = js ''1'', title = js ''A'', artist = js ''B'', src = js ''a.mp3'', lyrics = None\<rparr>,
                \<lparr>song_id = js ''2'', title = js ''C'', artist = js ''D'', src = js ''c.mp3'', lyrics = Some []\<rparr>],
       currentSongIndex = 1\<rparr>)
   = [\<lparr>song_id = js ''1'', title = js ''A'', artist = js ''B'', src = js ''a.mp3'', lyrics = None\<rparr>,
      \<lparr>song_id = js ''2'', title = js ''C'', artist = js ''D'', src = js ''c.mp3'',
        lyrics = Some [\<lparr>time = Fin 1, text' = js ''la''\<rparr>]\<rparr>]"
  using handleLyricsUpdate_frame[of
      "\<lparr>songs = [\<lparr>song_id = js ''1'', title = js ''A'', artist = js ''B'', src = js ''a.mp3'', lyrics = None\<rparr>,
                \<lparr>song_id = js ''2'', title = js ''C'', artist = js ''D'', src = js ''c.mp3'', lyrics = Some []\<rparr>],
       currentSongIndex = 1\<rparr>" "[\<lparr>time = Fin 1, text' = js ''la''\<rparr>]"]
  by (simp add: nth_equalityI list_eq_iff_nth_eq less_Suc_eq)

subsection \<open>The sort of the timestamped-lyrics parser\<close>

lemma lrcLoop_map_filter: "lrcLoop ls acc = acc @ List.map_filter lrcLine ls"
  by (induction ls arbitrary: acc) (simp_all add: List.map_filter_simps split: option.splits)

lemma mset_insert_cmp: "mset (insert_cmp cmp x xs) = add_mset x (mset xs)"
  by (induction xs) simp_all

lemma mset_array_sort: "mset (array_sort cmp xs) = mset xs"
  unfolding array_sort_def by (induction xs) (simp_all add: mset_insert_cmp)

lemma set_array_sort: "set (array_sort cmp xs) = set xs"
  using mset_array_sort[of cmp xs] by (metis set_mset_mset)

lemma set_insert_cmp: "set (insert_cmp cmp x xs) = insert x (set xs)"
  using mset_insert_cmp[of cmp x xs] by (metis set_mset_mset set_mset_add_mset_insert)


lemma sorted_insert_cmp:
  assumes "\<forall>l\<in>set (x # xs). non_negative (time l)"
    and "sorted_by_time xs"
  shows "sorted_by_time (insert_cmp (\<lambda>a b. num_sub (time a) (time b)) x xs)"
  using assms
proof (induction xs)
  case Nil
  then show ?case by (simp add: sorted_by_time_def)
next
  case (Cons y ys)
  obtain a where a: "time x = Fin a" using Cons.prems(1) by (auto simp: non_negative_def)
  obtain b where b: "time y = Fin b" using Cons.prems(1) by (auto simp: non_negative_def)
  have fin: "\<forall>z\<in>set ys. \<exists>c. time z = Fin c" using Cons.prems(1) by (auto simp: non_negative_def)
  have ys: "\<forall>z\<in>set ys. num_le (time y) (time z)" "sorted_by_time ys"
    using Cons.prems(2) by (simp_all add: sorted_by_time_def)
  show ?case
  proof (cases "b < a")
    case True
    have "sorted_by_time (insert_cmp (\<lambda>a b. num_sub (time a) (time b)) x ys)"
      using Cons.IH Cons.prems(1) ys(2) by simp
    moreover have "\<forall>z\<in>set (insert_cmp (\<lambda>a b. num_sub (time a) (time b)) x ys).
        num_le (time y) (time z)"
      using ys(1) True by (auto simp: set_insert_cmp a b)
    ultimately show ?thesis using True by (simp add: a b num_sub_def sorted_by_time_def)
  next
    case False
    have "\<forall>z\<in>set ys. num_le (time x) (time z)"
    proof
      fix z assume z: "z \<in> set ys"
      then obtain c where c: "time z = Fin c" using fin by blast
      show "num_le (time x) (time z)" using ys(1) z False by (auto simp: a b c)
    qed
    then show ?thesis using False Cons.prems(2)
      by (simp add: a b num_sub_def sorted_by_time_def)
  qed
qed

lemma sorted_array_sort:
  assumes "\<forall>l\<in>set xs. non_negative (time l)"
  shows "sorted_by_time (array_sort (\<lambda>a b. num_sub (time a) (time b)) xs)"
  using assms
proof (induction xs)
  case Nil
  then show ?case by (simp add: array_sort_def sorted_by_time_def)
next
  case (Cons x xs)
  have "sorted_by_time (array_sort (\<lambda>a b. num_sub (time a) (time b)) xs)"
    using Cons by simp
  moreover have "\<forall>l\<in>set (x # array_sort (\<lambda>a b. num_sub (time a) (time b)) xs). non_negative (time l)"
    using Cons.prems by (simp add: set_array_sort)
  ultimately have "sorted_by_time (insert_cmp (\<lambda>a b. num_sub (time a) (time b)) x
      (array_sort (\<lambda>a b. num_sub (time a) (time b)) xs))"
    by (rule sorted_insert_cmp[rotated])
  then show ?case by (simp add: array_sort_def)
qed

subsection \<open>The regular expression of the timestamped-lyrics parser\<close>

lemma is_digit_ZERO_plus: "a < 10 \<Longrightarrow> is_digit (ZERO + a)"
  by (simp add: is_digit_def)

lemma is_digit_cases: "is_digit c \<Longrightarrow> \<exists>a<10. c = ZERO + a"
  by (rule exI[of _ "c - ZERO"]) (auto simp: is_digit_def)

lemma regex_at_marker:
  assumes "a < 10" "b < 10" "c < 10" "d < 10" "e < 10" "f < 10"
  shows "regex_at (marker a b c d e f @ rest) =
     Some ([ZERO + a, ZERO + b], [ZERO + c, ZERO + d], [ZERO + e, ZERO + f],
           takeWhile (\<lambda>c. \<not> is_line_terminator c) rest)"
  using assms by (simp add: regex_at_def marker_def is_digit_def)

lemma take10:
  assumes "10 \<le> length s"
  shows "s = [s ! 0, s ! 1, s ! 2, s ! 3, s ! 4, s ! 5, s ! 6, s ! 7, s ! 8, s ! 9] @ drop 10 s"
proof -
  have "take 10 s = [s ! 0, s ! 1, s ! 2, s ! 3, s ! 4, s ! 5, s ! 6, s ! 7, s ! 8, s ! 9]"
    using assms by (simp add: list_eq_iff_nth_eq less_Suc_eq numeral_nat nth_Cons')
  then show ?thesis by (metis append_take_drop_id)
qed

lemma regex_at_SomeD:
  assumes "regex_at s = Some g"
  shows "\<exists>a b c d e f rest. a < 10 \<and> b < 10 \<and> c < 10 \<and> d < 10 \<and> e < 10 \<and> f < 10 \<and>
     s = marker a b c d e f @ rest"
proof -
  from assms have len: "10 \<le> length s"
    and ch: "s ! 0 = LBRACKET" "s ! 3 = COLON" "s ! 6 = DOT" "s ! 9 = RBRACKET"
    and dg: "is_digit (s ! 1)" "is_digit (s ! 2)" "is_digit (s ! 4)" "is_digit (s ! 5)"
      "is_digit (s ! 7)" "is_digit (s ! 8)"
    by (simp_all add: regex_at_def split: if_splits)
  from dg obtain a b c d e f where
    "a < 10" "s ! 1 = ZERO + a" "b < 10" "s ! 2 = ZERO + b" "c < 10" "s ! 4 = ZERO + c"
    "d < 10" "s ! 5 = ZERO + d" "e < 10" "s ! 7 = ZERO + e" "f < 10" "s ! 8 = ZERO + f"
    by (meson is_digit_cases)
  then have "a < 10 \<and> b < 10 \<and> c < 10 \<and> d < 10 \<and> e < 10 \<and> f < 10 \<and>
     s = marker a b c d e f @ drop 10 s"
    using take10[OF len] ch by (simp add: marker_def)
  then show ?thesis by blast
qed

lemma regex_match_None_iff: "regex_match s = None \<longleftrightarrow> \<not> has_marker s"
proof (induction s)
  case Nil
  then show ?case by (simp add: has_marker_def marker_def)
next
  case (Cons x xs)
  show ?case
  proof (cases "regex_at (x # xs)")
    case (Some g)
    from regex_at_SomeD[OF Some] have "has_marker (x # xs)"
      unfolding has_marker_def by (metis append_Nil)
    then show ?thesis using Some by simp
  next
    case None
    have "has_marker (x # xs) \<longleftrightarrow> has_marker xs"
    proof
      assume "has_marker (x # xs)"
      then obtain pre a b c d e f rest where
        h: "a < 10" "b < 10" "c < 10" "d < 10" "e < 10" "f < 10"
        "x # xs = pre @ marker a b c d e f @ rest"
        unfolding has_marker_def by blast
      show "has_marker xs"
      proof (cases pre)
        case Nil
        then have "regex_at (x # xs) \<noteq> None" using h regex_at_marker[of a b c d e f rest] by simp
        then show ?thesis using None by simp
      next
        case (Cons p ps)
        then have "xs = ps @ marker a b c d e f @ rest" using h(7) by simp
        then show ?thesis unfolding has_marker_def using h(1-6) by blast
      qed
    next
      assume "has_marker xs"
      then obtain pre a b c d e f rest where
        h: "a < 10" "b < 10" "c < 10" "d < 10" "e < 10" "f < 10"
        "xs = pre @ marker a b c d e f @ rest"
        unfolding has_marker_def by blast
      then have "x # xs = (x # pre) @ marker a b c d e f @ rest" by simp
      then show "has_marker (x # xs)" unfolding has_marker_def using h(1-6) by blast
    qed
    then show ?thesis using None Cons.IH by simp
  qed
qed

lemma regex_at_take10: "regex_at s = None \<longleftrightarrow> regex_at (take 10 s) = None"
  by (simp add: regex_at_def)

lemma regex_at_imp_match: "regex_at s \<noteq> None \<Longrightarrow> regex_match s \<noteq> None"
  by (cases s) (auto simp: regex_at_def)

lemma regex_match_at: "regex_at s = Some g \<Longrightarrow> regex_match s = Some g"
  by (cases s) (auto simp: regex_at_def)

lemma has_marker_Cons: "has_marker xs \<Longrightarrow> has_marker (x # xs)"
  unfolding has_marker_def by (metis append_Cons)

lemma length_marker: "length (marker a b c d e f) = 10"
  by (simp add: marker_def)

lemma regex_match_first_marker:
  assumes "a < 10" "b < 10" "c < 10" "d < 10" "e < 10" "f < 10"
    and "\<not> has_marker (pre @ take 9 (marker a b c d e f))"
  shows "regex_match (pre @ marker a b c d e f @ rest) =
     Some ([ZERO + a, ZERO + b], [ZERO + c, ZERO + d], [ZERO + e, ZERO + f],
           takeWhile (\<lambda>c. \<not> is_line_terminator c) rest)"
  using assms(7)
proof (induction pre)
  case Nil
  show ?case using regex_at_marker[OF assms(1-6), of rest] by (simp add: regex_match_at)
next
  case (Cons p ps)
  have "take 10 ((p # ps) @ marker a b c d e f @ rest) =
        take 10 ((p # ps) @ take 9 (marker a b c d e f))"
    by (simp add: marker_def take_Cons' )
  then have "regex_at ((p # ps) @ marker a b c d e f @ rest) = None \<longleftrightarrow>
      regex_at ((p # ps) @ take 9 (marker a b c d e f)) = None"
    using regex_at_take10 by metis
  moreover have "regex_at ((p # ps) @ take 9 (marker a b c d e f)) = None"
    using Cons.prems regex_at_imp_match regex_match_None_iff by blast
  ultimately have none: "regex_at ((p # ps) @ marker a b c d e f @ rest) = None" by simp
  have "\<not> has_marker (ps @ take 9 (marker a b c d e f))"
    using Cons.prems has_marker_Cons[of "ps @ take 9 (marker a b c d e f)" p] by auto
  then show ?case using Cons.IH none by simp
qed

subsection \<open>What one line of a lyrics file contributes\<close>

lemma not_white_space_digit: "a < 10 \<Longrightarrow> \<not> is_white_space (ZERO + a)"
  by (simp add: is_white_space_def)

lemma radix_digit_10: "a < 10 \<Longrightarrow> radix_digit 10 (ZERO + a) = Some a"
  by (simp add: radix_digit_def)

lemma parseInt_two_digits:
  assumes "a < 10" "b < 10"
  shows "parseInt [ZERO + a, ZERO + b] = Fin (of_nat (10 * a + b))"
proof -
  have ts: "trim_start [ZERO + a, ZERO + b] = [ZERO + a, ZERO + b]"
    using assms by (simp add: trim_start_def not_white_space_digit)
  have nohex: "ZERO + b \<noteq> 0x78" "ZERO + b \<noteq> 0x58" "ZERO + a \<noteq> MINUS" "ZERO + a \<noteq> PLUS"
    using assms by simp_all
  show ?thesis
    unfolding parseInt_def ts Let_def using assms nohex
    by (simp add: radix_digit_10)
qed

lemma regex_at_SomeD':
  assumes "regex_at s = Some g"
  shows "\<exists>a b c d e f rest. a < 10 \<and> b < 10 \<and> c < 10 \<and> d < 10 \<and> e < 10 \<and> f < 10 \<and>
     g = ([ZERO + a, ZERO + b], [ZERO + c, ZERO + d], [ZERO + e, ZERO + f], rest)"
proof -
  from regex_at_SomeD[OF assms] obtain a b c d e f rest where
    h: "a < 10" "b < 10" "c < 10" "d < 10" "e < 10" "f < 10" "s = marker a b c d e f @ rest"
    by blast
  then show ?thesis using regex_at_marker[OF h(1-6), of rest] assms by auto
qed

lemma regex_match_SomeD:
  "regex_match s = Some g \<Longrightarrow>
   \<exists>a b c d e f rest. a < 10 \<and> b < 10 \<and> c < 10 \<and> d < 10 \<and> e < 10 \<and> f < 10 \<and>
     g = ([ZERO + a, ZERO + b], [ZERO + c, ZERO + d], [ZERO + e, ZERO + f], rest)"
proof (induction s)
  case Nil
  then show ?case by simp
next
  case (Cons x xs)
  then show ?case by (cases "regex_at (x # xs)") (auto dest: regex_at_SomeD')
qed

lemma lrcLine_groups:
  assumes "a < 10" "b < 10" "c < 10" "d < 10" "e < 10" "f < 10"
    and "regex_match line = Some ([ZERO + a, ZERO + b], [ZERO + c, ZERO + d], [ZERO + e, ZERO + f], rest)"
  shows "lrcLine line =
     Some \<lparr>time = Fin (of_nat ((10 * a + b) * 60 + (10 * c + d)) + of_nat (10 * e + f) / 100),
           text' = trim rest\<rparr>"
  using assms by (simp add: lrcLine_def parseInt_two_digits)

lemma lrcLine_None_iff: "lrcLine line = None \<longleftrightarrow> \<not> has_marker line"
  using regex_match_None_iff[of line] by (auto simp: lrcLine_def split: option.splits)

lemma lrcLine_non_negative:
  assumes "lrcLine line = Some l"
  shows "non_negative (time l)"
proof -
  from assms obtain g where g: "regex_match line = Some g"
    by (auto simp: lrcLine_def split: option.splits)
  from regex_match_SomeD[OF g] obtain a b c d e f rest where
    h: "a < 10" "b < 10" "c < 10" "d < 10" "e < 10" "f < 10"
    "g = ([ZERO + a, ZERO + b], [ZERO + c, ZERO + d], [ZERO + e, ZERO + f], rest)" by blast
  have "l = \<lparr>time = Fin (of_nat ((10 * a + b) * 60 + (10 * c + d)) + of_nat (10 * e + f) / 100),
           text' = trim rest\<rparr>"
    using lrcLine_groups[OF h(1-6), of line rest] g h(7) assms by simp
  then show ?thesis by (simp add: non_negative_def)
qed

lemma set_map_filter: "set (List.map_filter f xs) = {y. \<exists>x\<in>set xs. f x = Some y}"
  by (induction xs) (auto simp: List.map_filter_simps split: option.splits)

lemma mset_map_filter:
  "mset (List.map_filter f xs) = image_mset (\<lambda>x. the (f x)) (filter_mset (\<lambda>x. f x \<noteq> None) (mset xs))"
  by (induction xs) (auto simp: List.map_filter_simps split: option.splits)

lemma parseLRCFile_sort:
  "parseLRCFile content =
     array_sort (\<lambda>a b. num_sub (time a) (time b)) (List.map_filter lrcLine (split_on NL content))"
  by (simp add: parseLRCFile_def lrcLoop_map_filter)

lemma mset_parseLRCFile:
  "mset (parseLRCFile content) =
     image_mset (\<lambda>line. the (lrcLine line)) (filter_mset has_marker (mset (split_on NL content)))"
  by (simp add: parseLRCFile_sort mset_array_sort mset_map_filter lrcLine_None_iff)


lemma sorted_parseLRCFile: "sorted_by_time (parseLRCFile content)"
  unfolding parseLRCFile_sort
  by (rule sorted_array_sort) (auto simp: set_map_filter dest: lrcLine_non_negative)

lemma lrcLine_first_marker:
  assumes "a < 10" "b < 10" "c < 10" "d < 10" "e < 10" "f < 10"
    and "\<not> has_marker (pre @ take 9 (marker a b c d e f))"
  shows "lrcLine (pre @ marker a b c d e f @ rest) =
     Some \<lparr>time = Fin (of_nat ((10 * a + b) * 60 + (10 * c + d)) + of_nat (10 * e + f) / 100),
           text' = trim (takeWhile (\<lambda>c. \<not> is_line_terminator c) rest)\<rparr>"
  by (rule lrcLine_groups[OF assms(1-6)]) (rule regex_match_first_marker[OF assms])

subsection \<open>The timestamped-lyrics parser\<close>

lemma split_on_not_Nil: "split_on sep s \<noteq> []"
  by (induction s) (auto split: list.splits)

lemma split_on_append: "split_on sep (a @ sep # b) = split_on sep a @ split_on sep b"
proof (induction a)
  case Nil
  then show ?case by simp
next
  case (Cons x xs)
  then show ?case using split_on_not_Nil[of sep xs] by (auto split: list.splits)
qed

lemma split_on_no_sep: "sep \<notin> set s \<Longrightarrow> split_on sep s = [s]"
  by (induction s) auto

lemmas eval_strings = js_def trim_def trim_start_def is_white_space_def is_line_terminator_def
  is_digit_def

lemmas eval_lrc = parseLRCFile_def lrcLine_def regex_at_def parseInt_def radix_digit_def
  array_sort_def num_sub_def

lemmas eval_manual = parseManualLyrics_def retainedLines_def manualLine_def parseTimeStr_def
  parseFloat_def parseInt_def unsigned_decimal_def exponent_part_def scale10_def radix_digit_def

text \<open>
  C2 as stated fails on a line whose marker is not leading: the pattern is not anchored,
  and the line \<open>x[00:01.00]hi\<close> contributes an entry.
\<close>

theorem parseLRCFile_unanchored_counterexample:
  "parseLRCFile (js ''x[00:01.00]hi'') = [\<lparr>time = Fin 1, text' = js ''hi''\<rparr>]"
  by (simp add: eval_strings eval_lrc)

text \<open>
  C2 (amended). For every input text, the output of the timestamped-lyrics parser consists,
  as a multiset, of one entry for each line (between the newlines) that contains a marker
  \<open>[mm:ss.xx]\<close> of two-digit fields somewhere, and of nothing else: a line without a marker
  contributes nothing. The entry of a line is computed from its first marker: its time is
  \<open>minutes * 60 + seconds + hundredths / 100\<close>, and its text is what follows the marker, up
  to the first line terminator, with the surrounding white space trimmed. No input is an
  error: the parser is a total function.
\<close>

theorem parseLRCFile_entries:
  "mset (parseLRCFile content) =
     image_mset (\<lambda>line. the (lrcLine line)) (filter_mset has_marker (mset (split_on NL content))) \<and>
   (lrcLine line = None \<longleftrightarrow> \<not> has_marker line) \<and>
   (a < 10 \<and> b < 10 \<and> c < 10 \<and> d < 10 \<and> e < 10 \<and> f < 10 \<and>
    \<not> has_marker (pre @ take 9 (marker a b c d e f)) \<longrightarrow>
      lrcLine (pre @ marker a b c d e f @ rest) =
        Some \<lparr>time = Fin (of_nat ((10 * a + b) * 60 + (10 * c + d)) + of_nat (10 * e + f) / 100),
              text' = trim (takeWhile (\<lambda>c. \<not> is_line_terminator c) rest)\<rparr>)"
  using mset_parseLRCFile[of content] lrcLine_None_iff[of line]
    lrcLine_first_marker[of a b c d e f pre rest] by blast

theorem parseLRCFile_entries_witness:
  "\<not> has_marker (js ''ab'' @ take 9 (marker 0 1 0 2 5 0)) \<and>
   lrcLine (js ''ab[01:02.50] la '') = Some \<lparr>time = Fin (125 / 2), text' = js ''la''\<rparr> \<and>
   lrcLine (js ''[01:02.5] la'') = None"
proof -
  have 1: "\<not> has_marker (js ''ab'' @ take 9 (marker 0 1 0 2 5 0))"
    unfolding regex_match_None_iff[symmetric]
    by (simp add: js_def marker_def regex_at_def is_digit_def)
  have 2: "js ''ab[01:02.50] la '' = js ''ab'' @ marker 0 1 0 2 5 0 @ js '' la ''"
    by (simp add: js_def marker_def)
  have 3: "lrcLine (js ''[01:02.5] la'') = None"
    by (simp add: js_def lrcLine_def regex_at_def is_digit_def)
  show ?thesis
    using parseLRCFile_entries[of "[]" "js ''[01:02.5] la''" 0 1 0 2 5 0 "js ''ab''" "js '' la ''"]
      1 3 unfolding 2 by (simp add: eval_strings)
qed

text \<open>
  C5. For every input text the output of the timestamped-lyrics parser is sorted in
  non-decreasing order of time; so two inputs whose lines are permutations of each other
  give the same multiset of entries, each in ascending time order.
\<close>

theorem parseLRCFile_sorted:
  "sorted_by_time (parseLRCFile content1) \<and>
   (mset (split_on NL content1) = mset (split_on NL content2) \<longrightarrow>
      mset (parseLRCFile content1) = mset (parseLRCFile content2) \<and>
      sorted_by_time (parseLRCFile content2))"
  by (simp add: sorted_parseLRCFile mset_parseLRCFile)

theorem parseLRCFile_sorted_witness:
  "mset (split_on NL (js ''[00:05.00]b\<newline>[00:01.00]a'')) =
     mset (split_on NL (js ''[00:01.00]a\<newline>[00:05.00]b'')) \<and>
   parseLRCFile (js ''[00:05.00]b\<newline>[00:01.00]a'') =
     [\<lparr>time = Fin 1, text' = js ''a''\<rparr>, \<lparr>time = Fin 5, text' = js ''b''\<rparr>] \<and>
   mset (parseLRCFile (js ''[00:01.00]a\<newline>[00:05.00]b'')) =
     mset [\<lparr>time = Fin 1, text' = js ''a''\<rparr>, \<lparr>time = Fin 5, text' = js ''b''\<rparr>]"
proof -
  have 1: "split_on NL (js ''[00:05.00]b\<newline>[00:01.00]a'') = [js ''[00:05.00]b'', js ''[00:01.00]a'']"
    "split_on NL (js ''[00:01.00]a\<newline>[00:05.00]b'') = [js ''[00:01.00]a'', js ''[00:05.00]b'']"
    by (simp_all add: js_def)
  have 2: "parseLRCFile (js ''[00:05.00]b\<newline>[00:01.00]a'') =
     [\<lparr>time = Fin 1, text' = js ''a''\<rparr>, \<lparr>time = Fin 5, text' = js ''b''\<rparr>]"
    by (simp add: eval_strings eval_lrc)
  have 3: "mset (split_on NL (js ''[00:05.00]b\<newline>[00:01.00]a'')) =
     mset (split_on NL (js ''[00:01.00]a\<newline>[00:05.00]b''))"
    unfolding 1 by simp
  show ?thesis
    using parseLRCFile_sorted[of "js ''[00:05.00]b\<newline>[00:01.00]a''" "js ''[00:01.00]a\<newline>[00:05.00]b''"] 2 3
    by simp
qed

subsection \<open>Lines are handled one by one\<close>






subsection \<open>The sign of the parsed times\<close>


subsection \<open>The upload handler\<close>

text \<open>
  C6 as stated fails for a file named \<open>.lrc\<close> whose content has no tagged line: the
  handler calls the lyrics-update operation with the empty sequence, which replaces the
  lyrics of the selected song, and shows the success notice.
\<close>

theorem upload_without_tags_counterexample:
  "lyrics (songs (world (handleLRCUpload (Some handleLyricsUpdate)
      (Some \<lparr>file_name = js ''a.lrc'', file_content = js ''no tags''\<rparr>)
      \<lparr>world = \<lparr>songs = [\<lparr>song_id = js ''1'', title = js ''T'', artist = js ''A'', src = js ''s'',
                            lyrics = Some [\<lparr>time = Fin 0, text' = js ''la''\<rparr>]\<rparr>],
                  currentSongIndex = 0\<rparr>,
       toasts = []\<rparr>)) ! 0) = Some [] \<and>
   toasts (handleLRCUpload (Some handleLyricsUpdate)
      (Some \<lparr>file_name = js ''a.lrc'', file_content = js ''no tags''\<rparr>)
      \<lparr>world = \<lparr>songs = [\<lparr>song_id = js ''1'', title = js ''T'', artist = js ''A'', src = js ''s'',
                            lyrics = Some [\<lparr>time = Fin 0, text' = js ''la''\<rparr>]\<rparr>],
                  currentSongIndex = 0\<rparr>,
       toasts = []\<rparr>) = [ToastSuccess (js ''Lyrics uploaded successfully!'')]"
proof -
  have e: "endsWith (js ''a.lrc'') (js ''.lrc'')" by (simp add: endsWith_def js_def)
  have p: "parseLRCFile (js ''no tags'') = []" by (simp add: eval_strings eval_lrc)
  show ?thesis
    by (simp add: handleLRCUpload_def e p callOnLyricsUpdate_def toast_show_def
        handleLyricsUpdate_def)
qed

text \<open>
  C6 (amended). For every upload event: if there is no file, or the name of the file does
  not end in \<open>.lrc\<close>, the handler shows an error notice and changes nothing else (the
  lyrics-update operation is not called). If the name ends in \<open>.lrc\<close>, the lyrics-update
  operation (when provided) is called once with the parsed sequence, and the success notice
  is shown; with the coordinator's operation, the lyrics of the selected song become the
  parsed sequence, which is the empty sequence when no line of the content has a marker.
  The handler is a total function: it does not throw.
\<close>

theorem handleLRCUpload_effects:
  "((file = None \<or> (\<exists>f. file = Some f \<and> \<not> endsWith (file_name f) (js ''.lrc''))) \<longrightarrow>
      handleLRCUpload onLyricsUpdate file out
        = out\<lparr>toasts := toasts out @ [ToastError (js ''Please upload a valid .lrc file'')]\<rparr>) \<and>
   (endsWith (file_name f) (js ''.lrc'') \<longrightarrow>
      handleLRCUpload (Some update) (Some f) out
        = out\<lparr>world := update (parseLRCFile (file_content f)) (world out),
               toasts := toasts out @ [ToastSuccess (js ''Lyrics uploaded successfully!'')]\<rparr> \<and>
      handleLRCUpload None (Some f) out
        = out\<lparr>toasts := toasts out @ [ToastSuccess (js ''Lyrics uploaded successfully!'')]\<rparr>) \<and>
   (endsWith (file_name f) (js ''.lrc'') \<and> 0 \<le> currentSongIndex app \<and>
    nat (currentSongIndex app) < length (songs app) \<longrightarrow>
      lyrics (songs (world (handleLRCUpload (Some handleLyricsUpdate) (Some f)
          \<lparr>world = app, toasts = ts\<rparr>)) ! nat (currentSongIndex app))
        = Some (parseLRCFile (file_content f))) \<and>
   ((\<forall>line\<in>set (split_on NL (file_content f)). \<not> has_marker line) \<longrightarrow>
      parseLRCFile (file_content f) = [])"
proof -
  have reject: "handleLRCUpload onLyricsUpdate file out
        = out\<lparr>toasts := toasts out @ [ToastError (js ''Please upload a valid .lrc file'')]\<rparr>"
    if "file = None \<or> (\<exists>f. file = Some f \<and> \<not> endsWith (file_name f) (js ''.lrc''))"
    using that by (auto simp: handleLRCUpload_def toast_show_def)
  have accept: "handleLRCUpload (Some update) (Some f) out
        = out\<lparr>world := update (parseLRCFile (file_content f)) (world out),
               toasts := toasts out @ [ToastSuccess (js ''Lyrics uploaded successfully!'')]\<rparr> \<and>
      handleLRCUpload None (Some f) out
        = out\<lparr>toasts := toasts out @ [ToastSuccess (js ''Lyrics uploaded successfully!'')]\<rparr>"
    if "endsWith (file_name f) (js ''.lrc'')"
    using that by (simp add: handleLRCUpload_def toast_show_def callOnLyricsUpdate_def)
  have replaced: "lyrics (songs (world (handleLRCUpload (Some handleLyricsUpdate) (Some f)
          \<lparr>world = app, toasts = ts\<rparr>)) ! nat (currentSongIndex app))
        = Some (parseLRCFile (file_content f))"
    if "endsWith (file_name f) (js ''.lrc'') \<and> 0 \<le> currentSongIndex app \<and>
      nat (currentSongIndex app) < length (songs app)"
    using that
    by (simp add: handleLRCUpload_def toast_show_def callOnLyricsUpdate_def
        handleLyricsUpdate_def nth_enumerate_eq)
  have empty: "parseLRCFile (file_content f) = []"
    if "\<forall>line\<in>set (split_on NL (file_content f)). \<not> has_marker line"
  proof -
    have "mset (parseLRCFile (file_content f)) = {#}"
      unfolding mset_parseLRCFile using that by (simp add: filter_mset_False)
    then show ?thesis by simp
  qed
  show ?thesis using reject accept replaced empty by blast
qed

theorem handleLRCUpload_effects_witness:
  "\<not> endsWith (js ''a.txt'') (js ''.lrc'') \<and>
   handleLRCUpload (Some handleLyricsUpdate)
      (Some \<lparr>file_name = js ''a.txt'', file_content = js ''[00:01.00]a''\<rparr>)
      \<lparr>world = \<lparr>songs = [], currentSongIndex = 0\<rparr>, toasts = []\<rparr>
     = \<lparr>world = \<lparr>songs = [], currentSongIndex = 0\<rparr>,
        toasts = [ToastError (js ''Please upload a valid .lrc file'')]\<rparr> \<and>
   endsWith (js ''a.lrc'') (js ''.lrc'') \<and>
   world (handleLRCUpload (Some handleLyricsUpdate)
      (Some \<lparr>file_name = js ''a.lrc'', file_content = js ''[00:01.00]a''\<rparr>)
      \<lparr>world = \<lparr>songs = [\<lparr>song_id = js ''1'', title = js ''T'', artist = js ''A'', src = js ''s'',
                            lyrics = None\<rparr>], currentSongIndex = 0\<rparr>, toasts = []\<rparr>)
     = \<lparr>songs = [\<lparr>song_id = js ''1'', title = js ''T'', artist = js ''A'', src = js ''s'',
                    lyrics = Some [\<lparr>time = Fin 1, text' = js ''a''\<rparr>]\<rparr>], currentSongIndex = 0\<rparr>"
proof -
  have e: "\<not> endsWith (js ''a.txt'') (js ''.lrc'')" "endsWith (js ''a.lrc'') (js ''.lrc'')"
    by (simp_all add: endsWith_def js_def)
  have p: "parseLRCFile (js ''[00:01.00]a'') = [\<lparr>time = Fin 1, text' = js ''a''\<rparr>]"
    by (simp add: eval_strings eval_lrc)
  show ?thesis
    using handleLRCUpload_effects[of
        "Some \<lparr>file_name = js ''a.txt'', file_content = js ''[00:01.00]a''\<rparr>"
        "Some handleLyricsUpdate" "\<lparr>world = \<lparr>songs = [], currentSongIndex = 0\<rparr>, toasts = []\<rparr>"
        "\<lparr>file_name = js ''a.lrc'', file_content = js ''[00:01.00]a''\<rparr>"
        handleLyricsUpdate "\<lparr>songs = [], currentSongIndex = 0\<rparr>" "[]"]
      handleLRCUpload_effects[of None None
        "\<lparr>world = \<lparr>songs = [\<lparr>song_id = js ''1'', title = js ''T'', artist = js ''A'', src = js ''s'',
                            lyrics = None\<rparr>], currentSongIndex = 0\<rparr>, toasts = []\<rparr>"
        "\<lparr>file_name = js ''a.lrc'', file_content = js ''[00:01.00]a''\<rparr>"
        handleLyricsUpdate "\<lparr>songs = [], currentSongIndex = 0\<rparr>" "[]"]
      e p
    by (simp add: handleLyricsUpdate_def)
qed

subsection \<open>White space around a time expression\<close>

lemma takeWhile_append_inert:
  "\<forall>c\<in>set w. \<not> P c \<Longrightarrow> takeWhile P (x @ w) = takeWhile P x"
  by (induction x) (auto simp: takeWhile_eq_Nil_iff)

lemma dropWhile_append_inert:
  "\<forall>c\<in>set w. \<not> P c \<Longrightarrow> dropWhile P (x @ w) = dropWhile P x @ w"
  by (induction x) (auto simp: dropWhile_eq_self_iff)

lemma hd_test_append:
  assumes "\<forall>c\<in>set w. \<not> Q c"
  shows "(x @ w \<noteq> [] \<and> Q (hd (x @ w))) = (x \<noteq> [] \<and> Q (hd x))"
  using assms by (cases x; cases w) auto

lemma white_space_chars:
  assumes "is_white_space c"
  shows "\<not> is_digit c" "c \<noteq> DOT" "c \<noteq> PLUS" "c \<noteq> MINUS" "c \<noteq> 0x65" "c \<noteq> 0x45"
    "c \<noteq> COLON" "c \<notin> set [0x49, 0x6E, 0x66, 0x69, 0x6E, 0x69, 0x74, 0x79]"
  using assms by (auto simp: is_white_space_def is_digit_def)

lemma exponent_part_append:
  assumes ws: "\<forall>c\<in>set w. is_white_space c"
  shows "exponent_part (s @ w) = exponent_part s"
proof -
  have e: "(s @ w \<noteq> [] \<and> (hd (s @ w) = 0x65 \<or> hd (s @ w) = 0x45))
      = (s \<noteq> [] \<and> (hd s = 0x65 \<or> hd s = 0x45))"
    using hd_test_append[of w "\<lambda>c. c = 0x65 \<or> c = 0x45" s] ws white_space_chars(5,6) by blast
  show ?thesis
  proof (cases "s \<noteq> [] \<and> (hd s = 0x65 \<or> hd s = 0x45)")
    case False
    show ?thesis by (simp only: exponent_part_def e False if_False)
  next
    case True
    then have tl: "tl (s @ w) = tl s @ w" by simp
    have p: "(tl s @ w \<noteq> [] \<and> (hd (tl s @ w) = PLUS \<or> hd (tl s @ w) = MINUS))
        = (tl s \<noteq> [] \<and> (hd (tl s) = PLUS \<or> hd (tl s) = MINUS))"
      using hd_test_append[of w "\<lambda>c. c = PLUS \<or> c = MINUS" "tl s"] ws white_space_chars(3,4)
      by blast
    have m: "(tl s @ w \<noteq> [] \<and> hd (tl s @ w) = MINUS) = (tl s \<noteq> [] \<and> hd (tl s) = MINUS)"
      using hd_test_append[of w "\<lambda>c. c = MINUS" "tl s"] ws white_space_chars(4) by blast
    have r1: "(if tl s \<noteq> [] \<and> (hd (tl s) = PLUS \<or> hd (tl s) = MINUS) then tl (tl s @ w) else tl s @ w)
        = (if tl s \<noteq> [] \<and> (hd (tl s) = PLUS \<or> hd (tl s) = MINUS) then tl (tl s) else tl s) @ w"
      by simp
    have ds: "takeWhile is_digit (X @ w) = takeWhile is_digit X" for X
      using takeWhile_append_inert[of w is_digit X] ws white_space_chars(1) by blast
    show ?thesis unfolding exponent_part_def e tl Let_def p m r1 ds ..
  qed
qed

lemma take8_append:
  assumes ws: "\<forall>c\<in>set w. is_white_space c"
  shows "(take 8 (x @ w) = [0x49, 0x6E, 0x66, 0x69, 0x6E, 0x69, 0x74, 0x79])
     = (take 8 x = [0x49, 0x6E, 0x66, 0x69, 0x6E, 0x69, 0x74, 0x79])"
proof (cases "8 \<le> length x")
  case True
  then show ?thesis by simp
next
  case False
  have ne: "take 8 x \<noteq> [0x49, 0x6E, 0x66, 0x69, 0x6E, 0x69, 0x74, 0x79]"
  proof
    assume "take 8 x = [0x49, 0x6E, 0x66, 0x69, 0x6E, 0x69, 0x74, 0x79]"
    then have "length (take 8 x) = 8" by simp
    then show False using False by simp
  qed
  have "take 8 (x @ w) \<noteq> [0x49, 0x6E, 0x66, 0x69, 0x6E, 0x69, 0x74, 0x79]"
  proof
    assume a: "take 8 (x @ w) = [0x49, 0x6E, 0x66, 0x69, 0x6E, 0x69, 0x74, 0x79]"
    then have len: "length (take 8 (x @ w)) = 8" by simp
    then have w: "length x < length (x @ w)" "w \<noteq> []" using False by auto
    have "(take 8 (x @ w)) ! length x = hd w" using False w by (simp add: nth_append hd_conv_nth)
    moreover have "(take 8 (x @ w)) ! length x \<in> set (take 8 (x @ w))"
      using False len by (intro nth_mem) simp
    ultimately have "hd w \<in> set [0x49, 0x6E, 0x66, 0x69, 0x6E, 0x69, 0x74, 0x79]"
      unfolding a by simp
    moreover have "is_white_space (hd w)" using ws w(2) by simp
    ultimately show False using white_space_chars(8) by blast
  qed
  then show ?thesis using ne by simp
qed

lemma unsigned_decimal_append:
  assumes ws: "\<forall>c\<in>set w. is_white_space c"
  shows "unsigned_decimal (x @ w) = unsigned_decimal x"
proof -
  have tk: "takeWhile is_digit (X @ w) = takeWhile is_digit X" for X
    using takeWhile_append_inert[of w is_digit X] ws white_space_chars(1) by blast
  have dr: "dropWhile is_digit (X @ w) = dropWhile is_digit X @ w" for X
    using dropWhile_append_inert[of w is_digit X] ws white_space_chars(1) by blast
  have dot: "(X @ w \<noteq> [] \<and> hd (X @ w) = DOT) = (X \<noteq> [] \<and> hd X = DOT)" for X
    using hd_test_append[of w "\<lambda>c. c = DOT" X] ws white_space_chars(2) by blast
  show ?thesis
  proof (cases "dropWhile is_digit x \<noteq> [] \<and> hd (dropWhile is_digit x) = DOT")
    case True
    then have tl: "tl (dropWhile is_digit x @ w) = tl (dropWhile is_digit x) @ w" by simp
    show ?thesis
      unfolding unsigned_decimal_def take8_append[OF ws] Let_def tk dr dot tl
        exponent_part_append[OF ws] ..
  next
    case False
    show ?thesis
      unfolding unsigned_decimal_def take8_append[OF ws] Let_def tk dr dot
        exponent_part_append[OF ws] by (simp only: False if_False)
  qed
qed

lemma parseFloat_append:
  assumes ws: "\<forall>c\<in>set w. is_white_space c"
  shows "parseFloat (x @ w) = parseFloat x"
proof (cases "\<forall>c\<in>set x. is_white_space c")
  case True
  then have "trim_start (x @ w) = []" "trim_start x = []"
    using ws by (auto simp: trim_start_def dropWhile_eq_Nil_conv)
  then show ?thesis by (simp add: parseFloat_def)
next
  case False
  then have ts: "trim_start (x @ w) = trim_start x @ w"
    by (auto simp: trim_start_def dropWhile_append1)
  have ne: "trim_start x \<noteq> []" using False by (simp add: trim_start_def dropWhile_eq_Nil_conv)
  then have hd: "hd (trim_start x @ w) = hd (trim_start x)"
    and tl: "tl (trim_start x @ w) = tl (trim_start x) @ w"
    and ne': "(trim_start x @ w \<noteq> []) = (trim_start x \<noteq> [])" by simp_all
  show ?thesis
    unfolding parseFloat_def ts Let_def hd tl ne' unsigned_decimal_append[OF ws] ..
qed

lemma parseFloat_prepend:
  assumes "\<forall>c\<in>set l. is_white_space c"
  shows "parseFloat (l @ x) = parseFloat x"
  using assms by (simp add: parseFloat_def trim_start_def dropWhile_append2)

lemma parseInt_prepend:
  assumes "\<forall>c\<in>set l. is_white_space c"
  shows "parseInt (l @ x) = parseInt x"
  using assms by (simp add: parseInt_def trim_start_def dropWhile_append2)

lemma trim_decompose:
  "\<exists>l w. (\<forall>c\<in>set l. is_white_space c) \<and> (\<forall>c\<in>set w. is_white_space c) \<and> e = l @ trim e @ w"
proof -
  let ?u = "dropWhile is_white_space e"
  have "rev ?u = takeWhile is_white_space (rev ?u) @ dropWhile is_white_space (rev ?u)" by simp
  then have "?u = trim e @ rev (takeWhile is_white_space (rev ?u))"
    unfolding trim_def by (metis rev_append rev_rev_ident)
  then have "e = takeWhile is_white_space e @ trim e @ rev (takeWhile is_white_space (rev ?u))"
    by (metis takeWhile_dropWhile_id)
  moreover have "\<forall>c\<in>set (takeWhile is_white_space e). is_white_space c"
    by (auto dest: set_takeWhileD)
  moreover have "\<forall>c\<in>set (rev (takeWhile is_white_space (rev ?u))). is_white_space c"
    by (auto dest: set_takeWhileD)
  ultimately show ?thesis by blast
qed

lemma parseFloat_trim: "parseFloat (trim e) = parseFloat e"
proof -
  obtain l w where "\<forall>c\<in>set l. is_white_space c" "\<forall>c\<in>set w. is_white_space c" "e = l @ trim e @ w"
    using trim_decompose by blast
  then show ?thesis using parseFloat_prepend[of l "trim e @ w"] parseFloat_append[of w "trim e"]
    by simp
qed

lemma split_on_takeWhile:
  "split_on sep s = takeWhile (\<lambda>c. c \<noteq> sep) s #
     (if sep \<in> set s then split_on sep (tl (dropWhile (\<lambda>c. c \<noteq> sep) s)) else [])"
proof (induction s)
  case Nil
  then show ?case by simp
next
  case (Cons a s)
  then show ?case by (cases "split_on sep s") auto
qed

subsection \<open>The freeform parser and its specification\<close>

lemma parseTimeStr_trim: "parseTimeStr (trim e) = spec_time_expression e"
proof -
  obtain l w where lw: "\<forall>c\<in>set l. is_white_space c" "\<forall>c\<in>set w. is_white_space c"
    and e: "e = l @ trim e @ w"
    using trim_decompose by blast
  let ?v = "trim e"
  let ?P = "\<lambda>c. c \<noteq> COLON"
  have lP: "\<forall>c\<in>set l. ?P c" and wP: "\<forall>c\<in>set w. ?P c"
    using lw white_space_chars(7) by blast+
  have col: "COLON \<in> set e \<longleftrightarrow> COLON \<in> set ?v"
  proof -
    have "set (l @ ?v @ w) = set l \<union> set ?v \<union> set w" by auto
    then have "set e = set l \<union> set ?v \<union> set w" by (metis e)
    then show ?thesis using lP wP by auto
  qed
  show ?thesis
  proof (cases "COLON \<in> set ?v")
    case False
    then show ?thesis using col by (simp add: parseTimeStr_def spec_time_expression_def parseFloat_trim)
  next
    case True
    let ?t = "tl (dropWhile ?P ?v)"
    have dv: "dropWhile ?P ?v \<noteq> []" using True by (simp add: dropWhile_eq_Nil_conv)
    have sp: "split_on COLON ?v = takeWhile ?P ?v # takeWhile ?P ?t #
        (if COLON \<in> set ?t then split_on COLON (tl (dropWhile ?P ?t)) else [])"
      using True by (subst split_on_takeWhile, subst split_on_takeWhile) simp
    have code: "parseTimeStr ?v =
        num_add (num_mul (parseInt (takeWhile ?P ?v)) (Fin 60)) (parseFloat (takeWhile ?P ?t))"
      using True by (simp add: parseTimeStr_def sp)
    have tw: "takeWhile ?P (?v @ w) = takeWhile ?P ?v"
      using True by (auto simp: takeWhile_append1)
    have "takeWhile ?P (l @ ?v @ w) = l @ takeWhile ?P ?v"
      using lP tw by (simp add: takeWhile_append2)
    then have m: "takeWhile ?P e = l @ takeWhile ?P ?v" by (metis e)
    have "dropWhile ?P (l @ ?v @ w) = dropWhile ?P (?v @ w)"
      using lP by (simp add: dropWhile_append2)
    moreover have "dropWhile ?P (?v @ w) = dropWhile ?P ?v @ w"
      using True by (auto simp: dropWhile_append1)
    ultimately have "dropWhile ?P (l @ ?v @ w) = dropWhile ?P ?v @ w" by simp
    then have "dropWhile ?P e = dropWhile ?P ?v @ w" by (metis e)
    then have t: "tl (dropWhile ?P e) = ?t @ w" using dv by simp
    have s: "parseFloat (takeWhile ?P (?t @ w)) = parseFloat (takeWhile ?P ?t)"
    proof (cases "COLON \<in> set ?t")
      case True
      then show ?thesis by (auto simp: takeWhile_append1)
    next
      case False
      then have a: "\<forall>c\<in>set (?t @ w). ?P c" and b: "\<forall>c\<in>set ?t. ?P c" using wP by auto
      have "takeWhile ?P (?t @ w) = ?t @ w" using a by (rule takeWhile_eq_all_conv[THEN iffD2])
      moreover have "takeWhile ?P ?t = ?t" using b by (rule takeWhile_eq_all_conv[THEN iffD2])
      ultimately show ?thesis using parseFloat_append[OF lw(2), of ?t] by (simp only:)
    qed
    have "spec_time_expression e =
        num_add (num_mul (parseInt (takeWhile ?P e)) (Fin 60))
          (parseFloat (takeWhile ?P (tl (dropWhile ?P e))))"
      using True col by (simp add: spec_time_expression_def)
    then show ?thesis unfolding code m t s using parseInt_prepend[OF lw(1)] by simp
  qed
qed

lemma manualLine_spec: "manualLine line index = spec_freeform_entry index line"
proof (cases "length (split_on PIPE line) = 2")
  case True
  then obtain a b where ab: "split_on PIPE line = [a, b]"
    by (cases "split_on PIPE line"; cases "tl (split_on PIPE line)") auto
  then show ?thesis
    by (simp add: manualLine_def spec_freeform_entry_def parseTimeStr_trim)
next
  case False
  then have "\<nexists>a b. split_on PIPE line = [a, b]" by auto
  then show ?thesis using False
    by (auto simp: manualLine_def spec_freeform_entry_def split: list.splits)
qed

lemma retainedLines_spec:
  "retainedLines buf = filter (\<lambda>line. \<not> whitespace_only line) (split_on NL buf)"
  by (simp add: retainedLines_def trim_empty_iff whitespace_only_def)

lemma parseManualLyrics_spec: "parseManualLyrics buf = spec_freeform buf"
  unfolding parseManualLyrics_map spec_freeform_def Let_def retainedLines_spec[symmetric]
  by (rule nth_equalityI) (simp_all add: nth_enumerate_eq manualLine_spec)

text \<open>
  C3. For every input buffer the freeform parser computes what the specification says: the
  lines of white space only are discarded first; a retained line that splits at \<open>|\<close> into
  exactly two parts gives the text, the second part trimmed, and the time, which is
  \<open>minutes * 60 + seconds\<close> when the first part contains a colon and the first part
  parsed as a plain number of seconds otherwise; any other retained line gives the whole
  trimmed line as text, with the time \<open>index * 3\<close> for its position \<open>index\<close> among the
  retained lines. The output is in the order of the retained lines and is not sorted by
  time: the buffer with the lines \<open>5|b\<close> and \<open>1.5|a\<close> gives the times 5 and 1.5 in this
  order.
\<close>

theorem parseManualLyrics_refines_spec:
  "parseManualLyrics buf = spec_freeform buf \<and>
   parseManualLyrics (js ''1:23|hello\<newline>\<newline>90|hello\<newline>just text'') =
     [\<lparr>time = Fin 83, text' = js ''hello''\<rparr>, \<lparr>time = Fin 90, text' = js ''hello''\<rparr>,
      \<lparr>time = Fin 6, text' = js ''just text''\<rparr>] \<and>
   \<not> sorted_by_time (parseManualLyrics (js ''5|b\<newline>1.5|a''))"
proof -
  have 1: "parseManualLyrics (js ''1:23|hello\<newline>\<newline>90|hello\<newline>just text'') =
     [\<lparr>time = Fin 83, text' = js ''hello''\<rparr>, \<lparr>time = Fin 90, text' = js ''hello''\<rparr>,
      \<lparr>time = Fin 6, text' = js ''just text''\<rparr>]"
    by (simp add: eval_strings eval_manual)
  have 2: "parseManualLyrics (js ''5|b\<newline>1.5|a'') =
      [\<lparr>time = Fin 5, text' = js ''b''\<rparr>, \<lparr>time = Fin (3 / 2), text' = js ''a''\<rparr>]"
    by (simp add: eval_strings eval_manual)
  show ?thesis using parseManualLyrics_spec[of buf] 1 unfolding 2
    by (simp add: sorted_by_time_def)
qed

theorem parseManualLyrics_refines_spec_witness:
  "spec_freeform (js ''0:05.5|la\<newline>  \<newline>la la'') =
     [\<lparr>time = Fin (11 / 2), text' = js ''la''\<rparr>, \<lparr>time = Fin 3, text' = js ''la la''\<rparr>]"
proof -
  have "parseManualLyrics (js ''0:05.5|la\<newline>  \<newline>la la'') =
     [\<lparr>time = Fin (11 / 2), text' = js ''la''\<rparr>, \<lparr>time = Fin 3, text' = js ''la la''\<rparr>]"
    by (simp add: eval_strings eval_manual)
  then show ?thesis
    using parseManualLyrics_refines_spec[of "js ''0:05.5|la\<newline>  \<newline>la la''"] by simp
qed

subsection \<open>When a time expression gives \<open>NaN\<close>, and when a negative time\<close>






















subsection \<open>Unparsable lines\<close>





subsection \<open>Times that are not negative\<close>






subsection \<open>Decimal digits\<close>

lemma digits_of_digits: "\<forall>c\<in>set (digits_of n). is_digit c"
proof (induction n rule: digits_of.induct)
  case (1 n)
  show ?case
  proof (cases "n < 10")
    case True
    then show ?thesis by (subst digits_of.simps) (simp add: is_digit_def)
  next
    case False
    have "n mod 10 < 10" by simp
    then have "is_digit (ZERO + n mod 10)" unfolding is_digit_def by linarith
    then show ?thesis using 1 False by (subst digits_of.simps) simp
  qed
qed

lemma digits_of_not_Nil: "digits_of n \<noteq> []"
  by (subst digits_of.simps) simp

lemma radix_digit_10_iff: "radix_digit 10 c \<noteq> None \<longleftrightarrow> is_digit c"
  by (auto simp: radix_digit_def is_digit_def Let_def)

lemma radix_digit_10_val: "is_digit c \<Longrightarrow> radix_digit 10 c = Some (c - ZERO)"
  by (auto simp: radix_digit_def is_digit_def Let_def)

lemma radix_value_append:
  "radix_value R acc (xs @ ys) = radix_value R (radix_value R acc xs) ys"
  by (induction xs arbitrary: acc) simp_all

lemma radix_value_acc:
  "radix_value 10 acc ys = acc * 10 ^ length ys + radix_value 10 0 ys"
proof (induction ys arbitrary: acc)
  case Nil
  then show ?case by simp
next
  case (Cons y ys)
  show ?case
    using Cons[of "acc * 10 + the (radix_digit 10 y)"] Cons[of "the (radix_digit 10 y)"]
    by (simp add: algebra_simps)
qed

lemma radix_value_digits_of: "radix_value 10 0 (digits_of n) = n"
proof (induction n rule: digits_of.induct)
  case (1 n)
  show ?case
  proof (cases "n < 10")
    case True
    then show ?thesis by (subst digits_of.simps) (simp add: radix_digit_def)
  next
    case False
    have "radix_digit 10 (ZERO + n mod 10) = Some (n mod 10)"
      by (simp add: radix_digit_10_val is_digit_def)
    then show ?thesis using 1 False
      by (subst digits_of.simps) (simp add: radix_value_append)
  qed
qed

lemma radix_value_zeros: "radix_value 10 0 (replicate k ZERO @ ds) = radix_value 10 0 ds"
  by (induction k) (simp_all add: radix_digit_def)

subsection \<open>Parsing what the serializer prints\<close>

lemma digit_chars:
  assumes "is_digit c"
  shows "\<not> is_white_space c" "c \<noteq> MINUS" "c \<noteq> PLUS" "c \<noteq> 0x78" "c \<noteq> 0x58" "c \<noteq> 0x49"
    "c \<noteq> DOT" "c \<noteq> COLON" "c \<noteq> PIPE" "c \<noteq> NL"
  using assms by (auto simp: is_digit_def is_white_space_def)

lemma dropWhile_hd: "s \<noteq> [] \<Longrightarrow> \<not> P (hd s) \<Longrightarrow> dropWhile P s = s"
  by (cases s) auto

lemma trim_start_digits:
  assumes "s \<noteq> []" "is_digit (hd s)"
  shows "trim_start s = s"
  using assms digit_chars(1) by (simp add: trim_start_def dropWhile_hd)

lemma parseInt_digits:
  assumes ne: "ds \<noteq> []" and dg: "\<forall>c\<in>set ds. is_digit c"
  shows "parseInt ds = Fin (of_nat (radix_value 10 0 ds))"
proof -
  have hd: "is_digit (hd ds)" using ne dg by simp
  have ts: "trim_start ds = ds" using ne hd by (rule trim_start_digits)
  have sg: "hd ds \<noteq> MINUS" "hd ds \<noteq> PLUS" using hd digit_chars(2,3) by blast+
  have nohex: "take 2 ds \<noteq> [0x30, 0x78]" "take 2 ds \<noteq> [0x30, 0x58]"
  proof -
    have "0x78 \<notin> set (take 2 ds)" "0x58 \<notin> set (take 2 ds)"
      using dg digit_chars(4,5) by (auto dest: in_set_takeD)
    then show "take 2 ds \<noteq> [0x30, 0x78]" "take 2 ds \<noteq> [0x30, 0x58]" by auto
  qed
  have tw: "takeWhile (\<lambda>c. \<exists>y. radix_digit 10 c = Some y) ds = ds"
    using dg by (simp add: takeWhile_eq_all_conv radix_digit_10_val)
  show ?thesis
    unfolding parseInt_def ts Let_def using sg nohex ne by (simp add: tw)
qed

lemma parseInt_digits_of: "parseInt (digits_of m) = Fin (of_nat m)"
  using parseInt_digits[OF digits_of_not_Nil digits_of_digits, of m]
  by (simp add: radix_value_digits_of)

lemma exponent_part_Nil: "exponent_part [] = 0"
  by (simp add: exponent_part_def)

lemma scale10_0: "scale10 x 0 = x"
  by (simp add: scale10_def)

lemma parseFloat_fixed:
  assumes ne: "ip \<noteq> []" and di: "\<forall>c\<in>set ip. is_digit c" and df: "\<forall>c\<in>set fp. is_digit c"
  shows "parseFloat (ip @ DOT # fp) =
     Fin (of_nat (radix_value 10 0 ip) + of_nat (radix_value 10 0 fp) / 10 ^ length fp)"
proof -
  let ?s = "ip @ DOT # fp"
  have hd: "is_digit (hd ?s)" using ne di by simp
  have ts: "trim_start ?s = ?s" using hd by (intro trim_start_digits) simp_all
  have sg: "hd ?s \<noteq> MINUS" "hd ?s \<noteq> PLUS" using hd digit_chars(2,3) by blast+
  have inf: "take 8 ?s \<noteq> [0x49, 0x6E, 0x66, 0x69, 0x6E, 0x69, 0x74, 0x79]"
  proof
    assume "take 8 ?s = [0x49, 0x6E, 0x66, 0x69, 0x6E, 0x69, 0x74, 0x79]"
    then have "hd (take 8 ?s) = 0x49" by simp
    then have "hd ?s = 0x49" using ne by (cases ip) simp_all
    then show False using hd digit_chars(6) by blast
  qed
  have tw: "takeWhile is_digit ?s = ip"
    using di by (simp add: takeWhile_append2 is_digit_def)
  have dw: "dropWhile is_digit ?s = DOT # fp"
    using di by (simp add: dropWhile_append2 is_digit_def)
  have tf: "takeWhile is_digit fp = fp" using df by (simp add: takeWhile_eq_all_conv)
  have dwf: "dropWhile is_digit fp = []" using df by (simp add: dropWhile_eq_Nil_conv)
  have ud: "unsigned_decimal ?s =
     Fin (of_nat (radix_value 10 0 ip) + of_nat (radix_value 10 0 fp) / 10 ^ length fp)"
    unfolding unsigned_decimal_def Let_def tw dw using inf ne
    by (simp add: tf dwf exponent_part_Nil scale10_0)
  show ?thesis unfolding parseFloat_def ts Let_def using sg ud by simp
qed

lemma trim_id:
  assumes "s \<noteq> []" "\<not> is_white_space (hd s)" "\<not> is_white_space (last s)"
  shows "trim s = s"
proof -
  have "dropWhile is_white_space s = s" using assms(1,2) by (rule dropWhile_hd)
  moreover have "dropWhile is_white_space (rev s) = rev s"
    using assms(1,3) by (intro dropWhile_hd) (simp_all add: hd_rev)
  ultimately show ?thesis by (simp add: trim_def)
qed

text \<open>The shape of a seconds field.\<close>

lemma seconds_field:
  fixes x :: rat
  defines "n \<equiv> nat \<lfloor>100 * x + 1 / 2\<rfloor>"
  shows "\<exists>ip fp. padStart 5 ZERO (fixed2 x) = ip @ DOT # fp \<and> ip \<noteq> [] \<and>
     (\<forall>c\<in>set ip. is_digit c) \<and> (\<forall>c\<in>set fp. is_digit c) \<and> length fp = 2 \<and>
     radix_value 10 0 ip * 100 + radix_value 10 0 fp = n"
proof -
  define m1 where "m1 = replicate (3 - length (digits_of n)) ZERO @ digits_of n"
  define ip where "ip = take (length m1 - 2) m1"
  define fp where "fp = drop (length m1 - 2) m1"
  have fx: "fixed2 x = ip @ DOT # fp"
    by (simp add: fixed2_def Let_def n_def m1_def ip_def fp_def)
  have len: "3 \<le> length m1" by (simp add: m1_def)
  have dg: "\<forall>c\<in>set m1. is_digit c"
    using digits_of_digits[of n] by (auto simp: m1_def is_digit_def)
  have val: "radix_value 10 0 m1 = n"
    by (simp add: m1_def radix_value_zeros radix_value_digits_of)
  have split: "m1 = ip @ fp" by (simp add: ip_def fp_def)
  have lfp: "length fp = 2" using len by (simp add: fp_def)
  have nip: "ip \<noteq> []" using len by (cases m1) (simp_all add: ip_def)
  have dip: "\<forall>c\<in>set ip. is_digit c" and dfp: "\<forall>c\<in>set fp. is_digit c"
    using dg split by auto
  have v: "radix_value 10 0 ip * 100 + radix_value 10 0 fp = n"
    using val radix_value_acc[of "radix_value 10 0 ip" fp] lfp
    by (simp add: split radix_value_append)
  let ?z = "replicate (5 - length (fixed2 x)) ZERO"
  have "padStart 5 ZERO (fixed2 x) = (?z @ ip) @ DOT # fp"
    by (simp add: padStart_def fx)
  moreover have "?z @ ip \<noteq> []" using nip by simp
  moreover have "\<forall>c\<in>set (?z @ ip). is_digit c" using dip by (auto simp: is_digit_def)
  moreover have "radix_value 10 0 (?z @ ip) * 100 + radix_value 10 0 fp = n"
    using v by (simp add: radix_value_zeros)
  ultimately show ?thesis using dfp lfp by blast
qed

lemma parseFloat_seconds_field:
  "parseFloat (padStart 5 ZERO (fixed2 x)) = Fin (of_nat (nat \<lfloor>100 * x + 1 / 2\<rfloor>) / 100)"
proof -
  obtain ip fp where f: "padStart 5 ZERO (fixed2 x) = ip @ DOT # fp" "ip \<noteq> []"
    "\<forall>c\<in>set ip. is_digit c" "\<forall>c\<in>set fp. is_digit c" "length fp = 2"
    "radix_value 10 0 ip * 100 + radix_value 10 0 fp = nat \<lfloor>100 * x + 1 / 2\<rfloor>"
    using seconds_field[of x] by blast
  have "(of_nat (radix_value 10 0 ip) + of_nat (radix_value 10 0 fp) / 10 ^ length fp :: rat)
      = of_nat (radix_value 10 0 ip * 100 + radix_value 10 0 fp) / 100"
    by (simp add: f(5) field_simps)
  then show ?thesis using parseFloat_fixed[OF f(2,3,4)] f(1,6) by simp
qed

lemma minutes_field:
  "\<forall>c\<in>set (digits_of m). c \<noteq> COLON \<and> c \<noteq> PIPE \<and> c \<noteq> NL"
  using digits_of_digits[of m] digit_chars(8,9,10) by blast

lemma seconds_field_chars:
  "\<forall>c\<in>set (padStart 5 ZERO (fixed2 x)). c \<noteq> COLON \<and> c \<noteq> PIPE \<and> c \<noteq> NL"
proof -
  obtain ip fp where f: "padStart 5 ZERO (fixed2 x) = ip @ DOT # fp"
    "\<forall>c\<in>set ip. is_digit c" "\<forall>c\<in>set fp. is_digit c"
    using seconds_field[of x] by blast
  have "\<forall>c. is_digit c \<longrightarrow> c \<noteq> COLON \<and> c \<noteq> PIPE \<and> c \<noteq> NL"
    using digit_chars(8,9,10) by blast
  then show ?thesis unfolding f(1) using f(2,3) by auto
qed

lemma seconds_field_last:
  "padStart 5 ZERO (fixed2 x) \<noteq> [] \<and> is_digit (last (padStart 5 ZERO (fixed2 x)))"
proof -
  obtain ip fp where f: "padStart 5 ZERO (fixed2 x) = ip @ DOT # fp"
    "\<forall>c\<in>set fp. is_digit c" "length fp = 2"
    using seconds_field[of x] by blast
  have "fp \<noteq> []" using f(3) by auto
  then have "last (ip @ DOT # fp) = last fp" "last fp \<in> set fp" by simp_all
  then show ?thesis unfolding f(1) using f(2) by simp
qed

subsection \<open>One line of the edit buffer\<close>

lemma hd_digits_of: "is_digit (hd (digits_of n))"
  using digits_of_digits[of n] digits_of_not_Nil[of n] hd_in_set by blast

lemma serializeLine_shape:
  assumes t: "time l = Fin q" and q: "0 \<le> q" "q < 2 ^ 53"
  shows "serializeLine l =
     Some (digits_of (nat \<lfloor>q / 60\<rfloor>) @ [COLON] @
       padStart 5 ZERO (fixed2 (q - 60 * of_int \<lfloor>q / 60\<rfloor>)) @ [PIPE] @ text' l)"
proof -
  have f0: "0 \<le> \<lfloor>q / 60\<rfloor>" using q(1) by simp
  have im: "in_model (Fin q)" using q by simp
  have ts: "minutes_text (time l) = Some (digits_of (nat \<lfloor>q / 60\<rfloor>))"
    unfolding t minutes_text_def using im f0 by simp
  have tr: "trunc (q / 60) = \<lfloor>q / 60\<rfloor>" using q(1) by (simp add: trunc_def)
  have r0: "0 \<le> q - 60 * of_int \<lfloor>q / 60\<rfloor>"
  proof -
    have "of_int \<lfloor>q / 60\<rfloor> \<le> q / 60" by (rule of_int_floor_le)
    then show ?thesis by (simp add: field_simps)
  qed
  have tf: "toFixed2 (num_rem (Fin q) (Fin 60)) = fixed2 (q - 60 * of_int \<lfloor>q / 60\<rfloor>)"
    using r0 by (simp add: tr)
  show ?thesis unfolding serializeLine_def ts using tf by (simp add: t)
qed

lemma round_hundredths_split:
  "of_nat (nat \<lfloor>q / 60\<rfloor>) * 60 + of_nat (nat \<lfloor>100 * (q - 60 * of_int \<lfloor>q / 60\<rfloor>) + 1 / 2\<rfloor>) / 100
     = round_hundredths q" if "0 \<le> q" for q :: rat
proof -
  let ?m = "\<lfloor>q / 60\<rfloor>"
  let ?r = "q - 60 * of_int ?m"
  have m0: "0 \<le> ?m" using that by simp
  have "of_int ?m \<le> q / 60" by (rule of_int_floor_le)
  then have r0: "0 \<le> ?r" by (simp add: field_simps)
  then have n0: "0 \<le> \<lfloor>100 * ?r + 1 / 2\<rfloor>" by simp
  have "100 * q + 1 / 2 = of_int (6000 * ?m) + (100 * ?r + 1 / 2)" by simp
  then have "\<lfloor>100 * q + 1 / 2\<rfloor> = 6000 * ?m + \<lfloor>100 * ?r + 1 / 2\<rfloor>"
    by (metis floor_add_int add.commute)
  then have "round_hundredths q = (of_int (6000 * ?m + \<lfloor>100 * ?r + 1 / 2\<rfloor>)) / 100"
    by (simp add: round_hundredths_def)
  also have "\<dots> = of_int ?m * 60 + of_int \<lfloor>100 * ?r + 1 / 2\<rfloor> / 100" by simp
  finally show ?thesis using m0 n0 by simp
qed

lemma split_two:
  assumes "sep \<notin> set a" "sep \<notin> set b"
  shows "split_on sep (a @ sep # b) = [a, b]"
  using assms by (simp add: split_on_append split_on_no_sep)

lemma manualLine_serializeLine:
  assumes "serializable l"
  shows "manualLine (the (serializeLine l)) index = rounded l"
proof -
  from assms obtain q where t: "time l = Fin q" and q: "0 \<le> q" "q < 2 ^ 53"
    and tx: "PIPE \<notin> set (text' l)" "trim (text' l) = text' l"
    unfolding serializable_def by blast
  let ?ds = "digits_of (nat \<lfloor>q / 60\<rfloor>)"
  let ?sec = "padStart 5 ZERO (fixed2 (q - 60 * of_int \<lfloor>q / 60\<rfloor>))"
  let ?A = "?ds @ COLON # ?sec"
  have line: "the (serializeLine l) = ?A @ PIPE # text' l"
    using serializeLine_shape[OF t q] by simp
  have noP: "PIPE \<notin> set ?A" and noC: "COLON \<notin> set ?ds" "COLON \<notin> set ?sec"
    using minutes_field[of "nat \<lfloor>q / 60\<rfloor>"] seconds_field_chars[of "q - 60 * of_int \<lfloor>q / 60\<rfloor>"]
    by auto
  have parts: "split_on PIPE (the (serializeLine l)) = [?A, text' l]"
    unfolding line using noP tx(1) by (rule split_two)
  have hdA: "hd ?A = hd ?ds" using digits_of_not_Nil by simp
  have "is_digit (hd ?ds)" by (rule hd_digits_of)
  then have h: "\<not> is_white_space (hd ?A)" using hdA digit_chars(1) by simp
  have "last ?A = last ?sec" using seconds_field_last by simp
  then have la: "\<not> is_white_space (last ?A)" using seconds_field_last digit_chars(1) by simp
  have trA: "trim ?A = ?A" using h la by (intro trim_id) simp_all
  have colon: "COLON \<in> set ?A" by simp
  have sp: "split_on COLON ?A = [?ds, ?sec]" using noC by (rule split_two)
  have "parseTimeStr ?A = num_add (num_mul (parseInt ?ds) (Fin 60)) (parseFloat ?sec)"
    unfolding parseTimeStr_def sp using colon by simp
  also have "\<dots> = Fin (of_nat (nat \<lfloor>q / 60\<rfloor>) * 60 +
      of_nat (nat \<lfloor>100 * (q - 60 * of_int \<lfloor>q / 60\<rfloor>) + 1 / 2\<rfloor>) / 100)"
    by (simp add: parseInt_digits_of parseFloat_seconds_field)
  also have "\<dots> = Fin (round_hundredths q)" using round_hundredths_split[OF q(1)] by simp
  finally have tm: "parseTimeStr ?A = Fin (round_hundredths q)" .
  have "manualLine (the (serializeLine l)) index = \<lparr>time = Fin (round_hundredths q), text' = text' l\<rparr>"
    unfolding manualLine_def parts Let_def by (simp add: trA tm tx(2))
  then show ?thesis by (simp add: rounded_def t)
qed

lemma serializeLine_Some:
  assumes "serializable l"
  shows "serializeLine l = Some (the (serializeLine l))"
proof -
  from assms obtain q where t: "time l = Fin q" and q: "0 \<le> q" "q < 2 ^ 53"
    unfolding serializable_def by blast
  show ?thesis unfolding serializeLine_shape[OF t q] by simp
qed

lemma serialized_shape:
  assumes t: "time l = Fin q" and q: "0 \<le> q" "q < 2 ^ 53"
  shows "the (serializeLine l) =
     digits_of (nat \<lfloor>q / 60\<rfloor>) @ [COLON] @
       padStart 5 ZERO (fixed2 (q - 60 * of_int \<lfloor>q / 60\<rfloor>)) @ [PIPE] @ text' l"
  unfolding serializeLine_shape[OF t q] by simp

lemma serializeLine_no_NL:
  assumes "serializable l"
  shows "NL \<notin> set (the (serializeLine l))"
proof -
  from assms obtain q where t: "time l = Fin q" and q: "0 \<le> q" "q < 2 ^ 53"
    and tx: "NL \<notin> set (text' l)"
    unfolding serializable_def by blast
  show ?thesis
    unfolding serialized_shape[OF t q]
    using minutes_field[of "nat \<lfloor>q / 60\<rfloor>"] seconds_field_chars[of "q - 60 * of_int \<lfloor>q / 60\<rfloor>"] tx
    by auto
qed

lemma serializeLine_retained:
  assumes "serializable l"
  shows "trim (the (serializeLine l)) \<noteq> []"
proof -
  from assms obtain q where t: "time l = Fin q" and q: "0 \<le> q" "q < 2 ^ 53"
    unfolding serializable_def by blast
  have "hd (digits_of (nat \<lfloor>q / 60\<rfloor>)) \<in> set (the (serializeLine l))"
    unfolding serialized_shape[OF t q] using digits_of_not_Nil by simp
  moreover have "\<not> is_white_space (hd (digits_of (nat \<lfloor>q / 60\<rfloor>)))"
    using hd_digits_of digit_chars(1) by blast
  ultimately show ?thesis unfolding trim_empty_iff by blast
qed

lemma split_on_join:
  assumes "xs \<noteq> []" "\<forall>x\<in>set xs. sep \<notin> set x"
  shows "split_on sep (join [sep] xs) = xs"
  using assms
proof (induction xs)
  case Nil
  then show ?case by simp
next
  case (Cons x xs)
  show ?case
  proof (cases xs)
    case Nil
    then show ?thesis using Cons.prems by (simp add: split_on_no_sep)
  next
    case (Cons y ys)
    then have "split_on sep (join [sep] xs) = xs" using Cons.IH Cons.prems by simp
    then show ?thesis using Cons Cons.prems by (simp add: split_on_append split_on_no_sep)
  qed
qed

subsection \<open>The round trip through the edit buffer\<close>

lemma floor_rat_numeral: "\<lfloor>numeral a / numeral b :: rat\<rfloor> = numeral a div numeral b"
  by (metis floor_divide_of_int_eq of_int_numeral)

lemma round_hundredths_close: "\<bar>round_hundredths q - q\<bar> \<le> 1 / 200"
proof -
  define f :: rat where "f = of_int \<lfloor>100 * q + 1 / 2\<rfloor>"
  have b: "f \<le> 100 * q + 1 / 2" "100 * q + 1 / 2 < f + 1" unfolding f_def by linarith+
  have r: "round_hundredths q = f / 100" by (simp add: round_hundredths_def f_def)
  show ?thesis unfolding r using b by linarith
qed

lemma round_hundredths_quarter:
  assumes "4 * q \<in> \<int>"
  shows "round_hundredths q = q"
proof -
  obtain k where k: "4 * q = of_int k" using assms by (auto elim: Ints_cases)
  then have q: "q = of_int k / 4" by simp
  have "100 * q + 1 / 2 = of_int (25 * k) + 1 / 2" by (simp add: q)
  then have "\<lfloor>100 * q + 1 / 2\<rfloor> = 25 * k + \<lfloor>1 / 2 :: rat\<rfloor>"
    by (metis floor_add_int add.commute)
  moreover have "\<lfloor>1 / 2 :: rat\<rfloor> = 0" by (rule floor_unique) simp_all
  ultimately have "\<lfloor>100 * q + 1 / 2\<rfloor> = 25 * k" by simp
  then show ?thesis by (simp add: round_hundredths_def q)
qed

lemma those_map_Some: "\<forall>x\<in>set xs. f x = Some (g x) \<Longrightarrow> those (map f xs) = Some (map g xs)"
  by (induction xs) simp_all

lemma serializeLyrics_Some:
  assumes "\<forall>l\<in>set ls. serializable l"
  shows "serializeLyrics (Some ls) = Some (join [NL] (map (\<lambda>l. the (serializeLine l)) ls))"
proof -
  have "\<forall>l\<in>set ls. serializeLine l = Some (the (serializeLine l))"
    using assms serializeLine_Some by blast
  then have "those (map serializeLine ls) = Some (map (\<lambda>l. the (serializeLine l)) ls)"
    by (rule those_map_Some)
  then show ?thesis by (simp add: serializeLyrics_def)
qed

text \<open>In the exact arithmetic of the model, the round trip rounds each time to hundredths.\<close>

lemma round_trip_lines:
  assumes "\<forall>l\<in>set ls. serializable l"
  shows "parseManualLyrics (join [NL] (map (\<lambda>l. the (serializeLine l)) ls)) = map rounded ls"
proof (cases "ls = []")
  case True
  then show ?thesis
    by (simp add: parseManualLyrics_def retainedLines_def trim_def)
next
  case False
  let ?lines = "map (\<lambda>l. the (serializeLine l)) ls"
  have "split_on NL (join [NL] ?lines) = ?lines"
    using False assms by (intro split_on_join) (auto dest: serializeLine_no_NL)
  moreover have "filter (\<lambda>line. trim line \<noteq> []) ?lines = ?lines"
    using assms by (auto simp: filter_id_conv dest: serializeLine_retained)
  ultimately have ret: "retainedLines (join [NL] ?lines) = ?lines"
    by (simp add: retainedLines_def)
  show ?thesis
    unfolding parseManualLyrics_map ret
    using assms by (intro nth_equalityI) (simp_all add: nth_enumerate_eq manualLine_serializeLine)
qed

text \<open>
  C4 (amended). For every lyric sequence whose entries have a finite time \<open>t\<close> with
  \<open>0 \<le> t < 2^53\<close> and a text without \<open>|\<close>, without newline and without white space at
  either end: serializing each entry to
  \<open>floor(t/60):(t mod 60, 2 decimals, padded to width 5)|text\<close>, joining with newlines
  and reparsing with the freeform parser yields a sequence of the same length, with the same
  texts, and with times that are finite and at most a hundredth of a second away from the
  original ones; a time that is a whole number of quarter seconds comes back unchanged.
  (The bound leaves room for the rounding of the double arithmetic of the parser, which
  the model does not have: in the model the distance is at most 1/200.)
\<close>

theorem edit_buffer_round_trip:
  "(\<forall>l\<in>set ls. serializable l) \<longrightarrow>
     (\<exists>buf. serializeLyrics (Some ls) = Some buf \<and>
        length (parseManualLyrics buf) = length ls \<and>
        (\<forall>i<length ls.
           text' (parseManualLyrics buf ! i) = text' (ls ! i) \<and>
           (\<exists>q r. time (ls ! i) = Fin q \<and> time (parseManualLyrics buf ! i) = Fin r \<and>
                  \<bar>r - q\<bar> \<le> 1 / 100 \<and> (4 * q \<in> \<int> \<longrightarrow> r = q))))"
proof
  assume a: "\<forall>l\<in>set ls. serializable l"
  let ?buf = "join [NL] (map (\<lambda>l. the (serializeLine l)) ls)"
  have s: "serializeLyrics (Some ls) = Some ?buf" using a by (rule serializeLyrics_Some)
  have p: "parseManualLyrics ?buf = map rounded ls" using a by (rule round_trip_lines)
  have len: "length (parseManualLyrics ?buf) = length ls" unfolding p by simp
  have each: "text' (parseManualLyrics ?buf ! i) = text' (ls ! i) \<and>
           (\<exists>q r. time (ls ! i) = Fin q \<and> time (parseManualLyrics ?buf ! i) = Fin r \<and>
                  \<bar>r - q\<bar> \<le> 1 / 100 \<and> (4 * q \<in> \<int> \<longrightarrow> r = q))" if i: "i < length ls" for i
  proof -
    have "serializable (ls ! i)" using a i by simp
    then obtain q where q: "time (ls ! i) = Fin q" unfolding serializable_def by (elim conjE exE)
    have n: "parseManualLyrics ?buf ! i = rounded (ls ! i)" unfolding p using i by simp
    have tx: "text' (parseManualLyrics ?buf ! i) = text' (ls ! i)"
      unfolding n by (simp add: rounded_def)
    have tm: "time (parseManualLyrics ?buf ! i) = Fin (round_hundredths q)"
      unfolding n by (simp add: rounded_def q)
    have cl: "\<bar>round_hundredths q - q\<bar> \<le> 1 / 100"
      using round_hundredths_close[of q] by linarith
    have qu: "4 * q \<in> \<int> \<longrightarrow> round_hundredths q = q"
      using round_hundredths_quarter by blast
    have "time (ls ! i) = Fin q \<and> time (parseManualLyrics ?buf ! i) = Fin (round_hundredths q) \<and>
        \<bar>round_hundredths q - q\<bar> \<le> 1 / 100 \<and> (4 * q \<in> \<int> \<longrightarrow> round_hundredths q = q)"
      using q tm cl qu by (intro conjI)
    then have "\<exists>q r. time (ls ! i) = Fin q \<and> time (parseManualLyrics ?buf ! i) = Fin r \<and>
                  \<bar>r - q\<bar> \<le> 1 / 100 \<and> (4 * q \<in> \<int> \<longrightarrow> r = q)"
      by (intro exI)
    then show ?thesis using tx by (intro conjI)
  qed
  have all: "\<forall>i<length ls.
           text' (parseManualLyrics ?buf ! i) = text' (ls ! i) \<and>
           (\<exists>q r. time (ls ! i) = Fin q \<and> time (parseManualLyrics ?buf ! i) = Fin r \<and>
                  \<bar>r - q\<bar> \<le> 1 / 100 \<and> (4 * q \<in> \<int> \<longrightarrow> r = q))"
  proof (intro allI impI)
    fix i assume "i < length ls"
    then show "text' (parseManualLyrics ?buf ! i) = text' (ls ! i) \<and>
           (\<exists>q r. time (ls ! i) = Fin q \<and> time (parseManualLyrics ?buf ! i) = Fin r \<and>
                  \<bar>r - q\<bar> \<le> 1 / 100 \<and> (4 * q \<in> \<int> \<longrightarrow> r = q))"
      by (rule each)
  qed
  have "serializeLyrics (Some ls) = Some ?buf \<and>
        length (parseManualLyrics ?buf) = length ls \<and>
        (\<forall>i<length ls.
           text' (parseManualLyrics ?buf ! i) = text' (ls ! i) \<and>
           (\<exists>q r. time (ls ! i) = Fin q \<and> time (parseManualLyrics ?buf ! i) = Fin r \<and>
                  \<bar>r - q\<bar> \<le> 1 / 100 \<and> (4 * q \<in> \<int> \<longrightarrow> r = q)))"
    using s len all by (intro conjI)
  then show "\<exists>buf. serializeLyrics (Some ls) = Some buf \<and>
        length (parseManualLyrics buf) = length ls \<and>
        (\<forall>i<length ls.
           text' (parseManualLyrics buf ! i) = text' (ls ! i) \<and>
           (\<exists>q r. time (ls ! i) = Fin q \<and> time (parseManualLyrics buf ! i) = Fin r \<and>
                  \<bar>r - q\<bar> \<le> 1 / 100 \<and> (4 * q \<in> \<int> \<longrightarrow> r = q)))"
    by (rule exI)
qed

lemmas eval_serialize = serializeLyrics_def serializeLine_def minutes_text_def trunc_def
  fixed2_def padStart_def digits_of.simps floor_rat_numeral

text \<open>
  C4 as stated fails for a text with a \<open>|\<close>: the entry at time 0 with the text \<open>a|b\<close> is
  serialized to \<open>0:00.00|a|b\<close>, a line of three parts, which the freeform parser takes as
  text without a time.
\<close>

theorem edit_buffer_pipe_counterexample:
  "serializeLyrics (Some [\<lparr>time = Fin 0, text' = js ''a|b''\<rparr>]) = Some (js ''0:00.00|a|b'') \<and>
   parseManualLyrics (js ''0:00.00|a|b'') = [\<lparr>time = Fin 0, text' = js ''0:00.00|a|b''\<rparr>]"
proof -
  have "serializeLyrics (Some [\<lparr>time = Fin 0, text' = js ''a|b''\<rparr>]) = Some (js ''0:00.00|a|b'')"
    by (simp add: eval_serialize js_def)
  moreover have "parseManualLyrics (js ''0:00.00|a|b'')
      = [\<lparr>time = Fin 0, text' = js ''0:00.00|a|b''\<rparr>]"
    by (simp add: eval_strings eval_manual)
  ultimately show ?thesis by simp
qed

text \<open>A negative time does not survive either: -1 is serialized to \<open>-1:-1.00\<close> and comes back as -61.\<close>

lemma edit_buffer_negative_time:
  "serializeLyrics (Some [\<lparr>time = Fin (- 1), text' = js ''a''\<rparr>]) = Some (js ''-1:-1.00|a'') \<and>
   parseManualLyrics (js ''-1:-1.00|a'') = [\<lparr>time = Fin (- 61), text' = js ''a''\<rparr>]"
proof -
  have "\<lfloor>- (1 / 60) :: rat\<rfloor> = - 1" "\<lceil>- (1 / 60) :: rat\<rceil> = 0" "\<lfloor>- 1 :: rat\<rfloor> = - 1"
    by (simp_all add: floor_eq_iff ceiling_eq_iff)
  then have "serializeLyrics (Some [\<lparr>time = Fin (- 1), text' = js ''a''\<rparr>]) = Some (js ''-1:-1.00|a'')"
    by (simp add: eval_serialize js_def)
  moreover have "parseManualLyrics (js ''-1:-1.00|a'') = [\<lparr>time = Fin (- 61), text' = js ''a''\<rparr>]"
    by (simp add: eval_strings eval_manual)
  ultimately show ?thesis by simp
qed

theorem edit_buffer_round_trip_witness:
  "serializable \<lparr>time = Fin (167 / 2), text' = js ''la la''\<rparr> \<and>
   serializeLyrics (Some [\<lparr>time = Fin (167 / 2), text' = js ''la la''\<rparr>])
     = Some (js ''1:23.50|la la'') \<and>
   parseManualLyrics (js ''1:23.50|la la'') = [\<lparr>time = Fin (167 / 2), text' = js ''la la''\<rparr>]"
proof -
  have s: "serializable \<lparr>time = Fin (167 / 2), text' = js ''la la''\<rparr>"
    unfolding serializable_def
    by (intro conjI exI[of _ "167 / 2"]) (simp_all add: eval_strings)
  have e: "serializeLyrics (Some [\<lparr>time = Fin (167 / 2), text' = js ''la la''\<rparr>])
     = Some (js ''1:23.50|la la'')"
    by (simp add: eval_serialize js_def)
  have q: "4 * (167 / 2 :: rat) \<in> \<int>" by simp
  let ?l = "\<lparr>time = Fin (167 / 2), text' = js ''la la''\<rparr>"
  have "\<forall>l\<in>set [?l]. serializable l" using s by simp
  then obtain buf where b: "serializeLyrics (Some [?l]) = Some buf"
    and l': "length (parseManualLyrics buf) = length [?l]"
    and a: "\<forall>i<length [?l]. text' (parseManualLyrics buf ! i) = text' ([?l] ! i) \<and>
           (\<exists>q r. time ([?l] ! i) = Fin q \<and> time (parseManualLyrics buf ! i) = Fin r \<and>
                  \<bar>r - q\<bar> \<le> 1 / 100 \<and> (4 * q \<in> \<int> \<longrightarrow> r = q))"
    using edit_buffer_round_trip[of "[?l]"] by blast
  have buf: "buf = js ''1:23.50|la la''" using b e by simp
  have l: "length (parseManualLyrics (js ''1:23.50|la la'')) = 1" using l' buf by simp
  have "0 < length [?l]" by simp
  with a have a0: "text' (parseManualLyrics buf ! 0) = text' ([?l] ! 0) \<and>
           (\<exists>q r. time ([?l] ! 0) = Fin q \<and> time (parseManualLyrics buf ! 0) = Fin r \<and>
                  \<bar>r - q\<bar> \<le> 1 / 100 \<and> (4 * q \<in> \<int> \<longrightarrow> r = q))"
    by blast
  then have x: "text' (parseManualLyrics (js ''1:23.50|la la'') ! 0) = js ''la la''"
    using buf by simp
  from a0 obtain q' r where qr: "time ([?l] ! 0) = Fin q'" "time (parseManualLyrics buf ! 0) = Fin r"
    "4 * q' \<in> \<int> \<longrightarrow> r = q'" by blast
  have q': "q' = 167 / 2" using qr(1) by simp
  have t: "time (parseManualLyrics (js ''1:23.50|la la'') ! 0) = Fin (167 / 2)"
    using qr(2,3) q unfolding q' buf by simp
  obtain y where y: "parseManualLyrics (js ''1:23.50|la la'') = [y]"
    using l by (cases "parseManualLyrics (js ''1:23.50|la la'')") auto
  have "y = \<lparr>time = Fin (167 / 2), text' = js ''la la''\<rparr>"
    using x t unfolding y by (cases y) simp
  then show ?thesis using s e y by simp
qed

end
